theory Spec2Isabelle
  imports Main "HOL-Library.Sublist" "HOL-Library.AList"
begin

section \<open>vector\_ingest.py: checkpointed embedding and upsert pipeline\<close>

text \<open>
  A shallow embedding of \<^verbatim>\<open>src/vector_ingest.py\<close>. Python strings are character
  lists; a character stands for a code point below 256. The external services (the
  Pinecone index, the OpenAI provider, the thread pool's completion order) are read from
  an environment record; the effects of the script (the checkpoint file, the upsert calls,
  the sleeps) are written to an explicit world record.
\<close>

subsection \<open>Configuration\<close>

definition ID_COLUMN :: string where
  "ID_COLUMN = ''post_id''"

definition EMBED_COLUMN :: string where
  "EMBED_COLUMN = ''post_text''"

definition OPENAI_EMBEDDING_BATCH_SIZE :: nat where
  "OPENAI_EMBEDDING_BATCH_SIZE = 100"

definition PINECONE_UPSERT_BATCH_SIZE :: nat where
  "PINECONE_UPSERT_BATCH_SIZE = 100"

subsection \<open>Strings\<close>

definition newline :: char where
  "newline = CHR 0x0A"

definition carriage_return :: char where
  "carriage_return = CHR 0x0D"

text \<open>\<^verbatim>\<open>str.isspace\<close> on the code points below 256: 9 to 13, 28 to 32, 133 and 160.\<close>

definition isspace :: "char \<Rightarrow> bool" where
  "isspace c = (let n = of_char c :: nat in
     (9 \<le> n \<and> n \<le> 13) \<or> (28 \<le> n \<and> n \<le> 32) \<or> n = 133 \<or> n = 160)"

text \<open>\<^verbatim>\<open>str.strip()\<close>: leading and trailing whitespace removed.\<close>

definition strip :: "string \<Rightarrow> string" where
  "strip s = rev (dropWhile isspace (rev (dropWhile isspace s)))"

text \<open>
  \<^verbatim>\<open>str.lower()\<close> on the ASCII letters. The other code points below 256 are left as
  they are: Python maps none of them to an ASCII character, and the substrings
  searched for below are ASCII, so the tests that use the lowered text are not affected.
\<close>

definition lower_char :: "char \<Rightarrow> char" where
  "lower_char c = (let n = of_char c :: nat in
     if 65 \<le> n \<and> n \<le> 90 then char_of (n + 32) else c)"

definition lower :: "string \<Rightarrow> string" where
  "lower s = map lower_char s"

subsection \<open>The checkpoint file\<close>

text \<open>
  The file is its content, one string. Reading it in text mode translates
  \<^verbatim>\<open>\r\n\<close> and \<^verbatim>\<open>\r\<close> to \<^verbatim>\<open>\n\<close> (universal newlines); iterating
  over it yields the pieces between line feeds.
\<close>

fun universal_newlines :: "string \<Rightarrow> string" where
  "universal_newlines [] = []"
| "universal_newlines [c] = (if c = carriage_return then [newline] else [c])"
| "universal_newlines (c # d # s) =
     (if c = carriage_return \<and> d = newline then newline # universal_newlines s
      else if c = carriage_return then newline # universal_newlines (d # s)
      else c # universal_newlines (d # s))"

text \<open>
  The lines of a text, without their terminators (which \<open>strip\<close> removes anyway); a
  text that ends with a line feed has no further, empty line after it.
\<close>

fun file_lines_acc :: "string \<Rightarrow> string \<Rightarrow> string list" where
  "file_lines_acc cur [] = (if cur = [] then [] else [cur])"
| "file_lines_acc cur (c # s) =
     (if c = newline then cur # file_lines_acc [] s else file_lines_acc (cur @ [c]) s)"

definition file_lines :: "string \<Rightarrow> string list" where
  "file_lines content = file_lines_acc [] (universal_newlines content)"

text \<open>
  \<^verbatim>\<open>load_processed_ids\<close>: the set of the stripped, non-empty lines; a missing file
  (\<open>None\<close>) gives the empty set.
\<close>

definition load_processed_ids :: "string option \<Rightarrow> string set" where
  "load_processed_ids file =
     (case file of
        None \<Rightarrow> {}
      | Some content \<Rightarrow> set (filter (\<lambda>l. l \<noteq> []) (map strip (file_lines content))))"

text \<open>The text of one \<^verbatim>\<open>f.write(str(id_val) + '\n')\<close>; the ids are strings already.\<close>

definition id_line :: "string \<Rightarrow> string" where
  "id_line id_val = id_val @ [newline]"

subsection \<open>Python values\<close>

text \<open>
  The cells of the data frame. A missing value is \<^verbatim>\<open>None\<close>, a float NaN or
  \<^verbatim>\<open>NaT\<close>. A float that is not NaN is identified by its \<^verbatim>\<open>repr\<close> (the script does
  no arithmetic on floats), and a scalar of any other type (a timestamp, say) by its
  \<^verbatim>\<open>str\<close>. A value is a scalar or a list of scalars: the coercion has a branch for
  lists. numpy's scalar types are not told apart from Python's.
\<close>

type_synonym pyfloat = string

datatype null = NoneVal | NaN | NaT

datatype atom = PNull null | PBool bool | PInt int | PFloat pyfloat | PStr string | POther string

datatype pyval = Scalar atom | PList "atom list"

fun str_nat :: "nat \<Rightarrow> string" where
  "str_nat n = (if n < 10 then [char_of (48 + n)] else str_nat (n div 10) @ [char_of (48 + n mod 10)])"

definition str_int :: "int \<Rightarrow> string" where
  "str_int i = (if i < 0 then CHR ''-'' # str_nat (nat (- i)) else str_nat (nat i))"

text \<open>\<^verbatim>\<open>str(value)\<close> on a scalar.\<close>

fun py_str :: "atom \<Rightarrow> string" where
  "py_str (PNull NoneVal) = ''None''"
| "py_str (PNull NaN) = ''nan''"
| "py_str (PNull NaT) = ''NaT''"
| "py_str (PBool b) = (if b then ''True'' else ''False'')"
| "py_str (PInt i) = str_int i"
| "py_str (PFloat r) = r"
| "py_str (PStr s) = s"
| "py_str (POther s) = s"

text \<open>\<^verbatim>\<open>pd.isna\<close> on a scalar.\<close>

fun isna :: "atom \<Rightarrow> bool" where
  "isna (PNull n) = True"
| "isna a = False"

subsection \<open>Metadata values and delivery items\<close>

datatype meta = MInt int | MBool bool | MFloat pyfloat | MStr string | MList "string list"

text \<open>One vector of the upsert: \<^verbatim>\<open>{"id": ..., "values": ..., "metadata": ...}\<close>.\<close>

record 'v vec =
  vid :: string
  vvalues :: 'v
  vmetadata :: "(string \<times> meta) list"

subsection \<open>World and environment\<close>

datatype error = ValueError | IndexError | ProviderError string

text \<open>
  The world: the checkpoint file (\<open>None\<close> while it does not exist), every call of
  \<^verbatim>\<open>pinecone_index.upsert\<close> with its outcome (\<open>None\<close>: it returned; \<open>Some m\<close>:
  it raised an exception whose \<^verbatim>\<open>str\<close> is \<open>m\<close>), every completed
  \<^verbatim>\<open>time.sleep\<close>, and the input of every call of the embedding provider.
\<close>

record 'v world =
  checkpoint_file :: "string option"
  upsert_log :: "('v vec list \<times> string option) list"
  sleep_log :: "int list"
  embed_log :: "atom list list"

text \<open>
  The environment: the outcome of the k-th upsert call of the run (counted from 0), the
  outcome of opening the checkpoint file for appending (from the file: \<open>None\<close> when it is
  opened, \<open>Some m\<close> when \<^verbatim>\<open>open\<close> raises an exception whose \<^verbatim>\<open>str\<close> is \<open>m\<close>), the
  outcome of a write to it (from the content the file has and the text to write: \<open>None\<close>
  when the text is written, \<open>Some m\<close> when the write raises), the provider's answer to the embedding call for
  chunk i, the order in which the futures complete, the dtype of each column of the data
  frame, and whether numpy refuses the truth value of an empty array (numpy 2.2 and later)
  or gives False (before).
\<close>

datatype np_dtype = Int64 | Float64 | Bool | Object | Datetime64

record 'v env =
  sink_outcome :: "nat \<Rightarrow> string option"
  open_error :: "string option \<Rightarrow> string option"
  write_error :: "string \<Rightarrow> string \<Rightarrow> string option"
  provider :: "nat \<Rightarrow> atom list \<Rightarrow> error + 'v list"
  completion_order :: "nat list"
  column_dtype :: "string \<Rightarrow> np_dtype"
  empty_array_raises :: bool

subsection \<open>Saving the processed ids\<close>

text \<open>
  \<^verbatim>\<open>save_processed_ids\<close> opens the file for appending, which creates it when it is
  missing, and writes the ids one by one. When \<^verbatim>\<open>open\<close> raises, the file is as before. A
  write that raises ends the loop: the ids written before it stay in the file, and the
  exception leaves the function. The result is the file and the exception, if any. Closing
  the file is taken to succeed.
\<close>

fun write_ids :: "'v env \<Rightarrow> string list \<Rightarrow> string \<Rightarrow> string \<times> string option" where
  "write_ids e [] content = (content, None)"
| "write_ids e (id_val # ids_to_save) content =
     (case write_error e content (id_line id_val) of
        Some msg \<Rightarrow> (content, Some msg)
      | None \<Rightarrow> write_ids e ids_to_save (content @ id_line id_val))"

definition save_processed_ids ::
  "'v env \<Rightarrow> string list \<Rightarrow> string option \<Rightarrow> string option \<times> string option" where
  "save_processed_ids e ids_to_save file =
     (case open_error e file of
        Some msg \<Rightarrow> (file, Some msg)
      | None \<Rightarrow>
          (case write_ids e ids_to_save (case file of None \<Rightarrow> [] | Some content \<Rightarrow> content) of
             (content, exc) \<Rightarrow> (Some content, exc)))"

subsection \<open>upsert\_with\_retry\<close>

text \<open>\<^verbatim>\<open>pinecone_index.upsert(vectors=vectors_batch)\<close>: logs the call, returns its outcome.\<close>

definition upsert :: "'v env \<Rightarrow> 'v vec list \<Rightarrow> 'v world \<Rightarrow> 'v world \<times> string option" where
  "upsert e vectors_batch w =
     (let outcome = sink_outcome e (length (upsert_log w))
      in (w\<lparr>upsert_log := upsert_log w @ [(vectors_batch, outcome)]\<rparr>, outcome))"

text \<open>\<^verbatim>\<open>time.sleep\<close> raises ValueError on a negative length.\<close>

definition sleep :: "int \<Rightarrow> 'v world \<Rightarrow> error + 'v world" where
  "sleep secs w = (if secs < 0 then Inl ValueError else Inr (w\<lparr>sleep_log := sleep_log w @ [secs]\<rparr>))"

definition retryable_substrings :: "string list" where
  "retryable_substrings =
     [''ssl'', ''connection'', ''timeout'', ''serviceunavailable'', ''bad_write_retry'',
      ''broken pipe'', ''server error'']"

definition is_retryable :: "string \<Rightarrow> bool" where
  "is_retryable msg = (let error_str = lower msg in
     list_ex (\<lambda>sub. sublist sub error_str) retryable_substrings)"

definition actual_delay :: "int \<Rightarrow> nat \<Rightarrow> int" where
  "actual_delay current_delay retries = min (current_delay * 2 ^ retries) 60"

text \<open>
  The body of the \<^verbatim>\<open>try\<close> (lines 56 to 62): the upsert, then the saving of the ids,
  then the return of their number. An exception of the upsert or of the saving leaves the
  body with its \<^verbatim>\<open>str\<close>, to be caught by the handler of line 64.
\<close>

definition try_body :: "'v env \<Rightarrow> 'v vec list \<Rightarrow> 'v world \<Rightarrow> 'v world \<times> (string + int)" where
  "try_body e vectors_batch w =
     (case upsert e vectors_batch w of
        (w1, Some msg) \<Rightarrow> (w1, Inl msg)
      | (w1, None) \<Rightarrow>
          (let ids_just_upserted = map vid vectors_batch
           in case save_processed_ids e ids_just_upserted (checkpoint_file w1) of
                (file, Some msg) \<Rightarrow> (w1\<lparr>checkpoint_file := file\<rparr>, Inl msg)
              | (file, None) \<Rightarrow>
                  (w1\<lparr>checkpoint_file := file\<rparr>, Inr (int (length ids_just_upserted)))))"

text \<open>
  The while loop of \<^verbatim>\<open>upsert_with_retry\<close>, from the state in which \<open>retries\<close> holds
  the given value. \<open>retries\<close> starts at 0 and is only incremented, so it is a natural
  number. The result is the world and either the returned count or the exception that
  leaves the function (only \<^verbatim>\<open>time.sleep\<close>, inside the handler, can raise one).
\<close>

function retry_loop ::
  "'v env \<Rightarrow> 'v vec list \<Rightarrow> int \<Rightarrow> int \<Rightarrow> nat \<Rightarrow> 'v world \<Rightarrow> 'v world \<times> (error + int)" where
  "retry_loop e vectors_batch max_retries initial_delay retries w =
     (if int retries < max_retries then
        (case try_body e vectors_batch w of
           (w1, Inr n) \<Rightarrow> (w1, Inr n)
         | (w1, Inl msg) \<Rightarrow>
             (if is_retryable msg \<and> int retries < max_retries - 1 then
                (case sleep (actual_delay initial_delay (retries + 1)) w1 of
                   Inl err \<Rightarrow> (w1, Inl err)
                 | Inr w2 \<Rightarrow> retry_loop e vectors_batch max_retries initial_delay (retries + 1) w2)
              else if is_retryable msg \<and> int retries \<ge> max_retries - 1 then (w1, Inr 0)
              else (w1, Inr 0)))
      else (w, Inr 0))"
  by pat_completeness auto
termination
  by (relation "measure (\<lambda>(e, b, m, d, r, w). nat (m - int r))") auto

definition upsert_with_retry ::
  "'v env \<Rightarrow> 'v vec list \<Rightarrow> int \<Rightarrow> int \<Rightarrow> 'v world \<Rightarrow> 'v world \<times> (error + int)" where
  "upsert_with_retry e vectors_batch max_retries initial_delay w =
     (if vectors_batch = [] then (w, Inr 0)
      else retry_loop e vectors_batch max_retries initial_delay 0 w)"

subsection \<open>Loading the data\<close>

text \<open>
  A row of the sheet as \<^verbatim>\<open>pd.read_excel\<close> gives it: the cell of the id column,
  the cell of the text column, and the other cells by column name. The cell of a sheet
  holds a scalar, never a list.
\<close>

record raw_row =
  raw_id :: atom
  raw_text :: atom
  raw_others :: "(string \<times> atom) list"

text \<open>A row once the id column has been made a string column.\<close>

record row =
  post_id :: string
  post_text :: atom
  others :: "(string \<times> atom) list"

text \<open>
  \<^verbatim>\<open>df[ID_COLUMN] = df[ID_COLUMN].astype(str)\<close>: every cell of the column becomes
  its \<^verbatim>\<open>str\<close>, a missing one too (pandas 2).
\<close>

definition astype_str :: "raw_row list \<Rightarrow> row list" where
  "astype_str df =
     map (\<lambda>r. \<lparr>post_id = py_str (raw_id r), post_text = raw_text r, others = raw_others r\<rparr>) df"

text \<open>\<^verbatim>\<open>df.dropna(subset=[ID_COLUMN, EMBED_COLUMN])\<close>, on the frame whose id column holds strings.\<close>

definition dropna :: "row list \<Rightarrow> row list" where
  "dropna df = filter (\<lambda>r. \<not> isna (PStr (post_id r)) \<and> \<not> isna (post_text r)) df"

definition load_data :: "raw_row list \<Rightarrow> row list" where
  "load_data excel = dropna (astype_str excel)"

subsection \<open>Resuming from the checkpoint\<close>

definition resume :: "string set \<Rightarrow> row list \<Rightarrow> row list" where
  "resume processed_ids_set df =
     (if processed_ids_set \<noteq> {} then filter (\<lambda>r. post_id r \<notin> processed_ids_set) df else df)"

subsection \<open>Embedding\<close>

text \<open>\<^verbatim>\<open>embed\<close>: an empty batch is answered without a call of the provider.\<close>

definition embed :: "'v env \<Rightarrow> nat \<Rightarrow> atom list \<Rightarrow> error + 'v list" where
  "embed e i texts_batch = (if texts_batch = [] then Inr [] else provider e i texts_batch)"

text \<open>The loop that cuts the frame into the batches for the provider, from row i on.\<close>

function prepare_batches :: "nat \<Rightarrow> row list \<Rightarrow> row list list" where
  "prepare_batches i df =
     (if i < length df then
        (let batch_df_for_openai = take OPENAI_EMBEDDING_BATCH_SIZE (drop i df)
         in (if map post_text batch_df_for_openai = [] then []
             else [batch_df_for_openai]) @ prepare_batches (i + OPENAI_EMBEDDING_BATCH_SIZE) df)
      else [])"
  by pat_completeness auto
termination
  by (relation "measure (\<lambda>(i, df). length df - i)") (auto simp: OPENAI_EMBEDDING_BATCH_SIZE_def)

subsection \<open>Metadata coercion\<close>

definition issubdtype_number :: "np_dtype \<Rightarrow> bool" where
  "issubdtype_number dt = (dt = Int64 \<or> dt = Float64)"

definition issubdtype_bool :: "np_dtype \<Rightarrow> bool" where
  "issubdtype_bool dt = (dt = Bool)"

text \<open>
  The test \<^verbatim>\<open>if pd.isna(value):\<close>. On a scalar \<^verbatim>\<open>pd.isna\<close> gives a bool. On a
  list it gives an array of bools, one for each element, and the truth value of an array
  is that of its element when it has one, raises ValueError when it has two or more, and
  depends on the numpy version when it has none.
\<close>

fun isna_test :: "bool \<Rightarrow> pyval \<Rightarrow> error + bool" where
  "isna_test raises (Scalar a) = Inr (isna a)"
| "isna_test raises (PList []) = (if raises then Inl ValueError else Inr False)"
| "isna_test raises (PList [a]) = Inr (isna a)"
| "isna_test raises (PList (a # b # xs)) = Inl ValueError"

text \<open>
  The body of the loop over the cells of a row (lines 183 to 205): the value stored under
  the column's name, or the exception raised. \<^verbatim>\<open>isinstance(value, bool)\<close> is tested
  before \<^verbatim>\<open>isinstance(value, int)\<close>, so a bool stays a bool.
\<close>

definition coerce :: "'v env \<Rightarrow> string \<Rightarrow> pyval \<Rightarrow> error + meta" where
  "coerce e col_name value =
     (let original_column_dtype = column_dtype e col_name
      in case isna_test (empty_array_raises e) value of
           Inl err \<Rightarrow> Inl err
         | Inr True \<Rightarrow>
             Inr (if issubdtype_number original_column_dtype then MInt 0
                  else if issubdtype_bool original_column_dtype then MBool False
                  else MStr [])
         | Inr False \<Rightarrow>
             Inr (case value of
                    Scalar (PBool b) \<Rightarrow> MBool b
                  | Scalar (PInt i) \<Rightarrow> MInt i
                  | Scalar (PFloat r) \<Rightarrow> MFloat r
                  | Scalar (PStr s) \<Rightarrow> MStr s
                  | PList elems \<Rightarrow> MList (map py_str elems)
                  | Scalar a \<Rightarrow> MStr (py_str a)))"

text \<open>
  The cells of a row as the loop sees them: every column of the frame, the id and the text
  column too. The payload is a dict: a column name met again overwrites its entry.
\<close>

definition row_items :: "row \<Rightarrow> (string \<times> pyval) list" where
  "row_items r =
     (ID_COLUMN, Scalar (PStr (post_id r))) # (EMBED_COLUMN, Scalar (post_text r)) #
     map (\<lambda>(col_name, a). (col_name, Scalar a)) (others r)"

fun metadata_loop ::
  "'v env \<Rightarrow> (string \<times> pyval) list \<Rightarrow> (string \<times> meta) list \<Rightarrow> error + (string \<times> meta) list" where
  "metadata_loop e [] metadata_payload = Inr metadata_payload"
| "metadata_loop e ((col_name, value) # items) metadata_payload =
     (case coerce e col_name value of
        Inl err \<Rightarrow> Inl err
      | Inr v \<Rightarrow> metadata_loop e items (AList.update col_name v metadata_payload))"

subsection \<open>The main loop\<close>

record 'v pstate =
  pworld :: "'v world"
  vectors_to_upsert_buffer :: "'v vec list"
  processed_count_in_run :: int

text \<open>
  Lines 213 to 218, after a vector has been appended to the buffer. The second
  component is the exception that leaves the block, if any.
\<close>

definition flush_if_full :: "'v env \<Rightarrow> 'v pstate \<Rightarrow> 'v pstate \<times> error option" where
  "flush_if_full e s =
     (if length (vectors_to_upsert_buffer s) \<ge> PINECONE_UPSERT_BATCH_SIZE then
        (if vectors_to_upsert_buffer s \<noteq> [] then
           (case upsert_with_retry e (vectors_to_upsert_buffer s) 3 5 (pworld s) of
              (w', Inl err) \<Rightarrow> (s\<lparr>pworld := w'\<rparr>, Some err)
            | (w', Inr succeeded_count) \<Rightarrow>
                (s\<lparr>pworld := w',
                   processed_count_in_run :=
                     (if succeeded_count > 0 then processed_count_in_run s + succeeded_count
                      else processed_count_in_run s),
                   vectors_to_upsert_buffer := []\<rparr>, None))
         else (s, None))
      else (s, None))"

text \<open>
  The loop over the embeddings of one completed batch (lines 177 to 218), at item
  \<open>item_idx_in_batch\<close>. Indexing the ids or the rows of the batch beyond their end
  raises IndexError.
\<close>

fun items_loop ::
  "'v env \<Rightarrow> row list \<Rightarrow> nat \<Rightarrow> 'v list \<Rightarrow> 'v pstate \<Rightarrow> 'v pstate \<times> error option" where
  "items_loop e batch item_idx_in_batch [] s = (s, None)"
| "items_loop e batch item_idx_in_batch (embedding_vector # rest) s =
     (if item_idx_in_batch < length batch then
        (let original_row = batch ! item_idx_in_batch
         in case metadata_loop e (row_items original_row) [] of
              Inl err \<Rightarrow> (s, Some err)
            | Inr metadata_payload \<Rightarrow>
                (let s1 = s\<lparr>vectors_to_upsert_buffer := vectors_to_upsert_buffer s @
                           [\<lparr>vid = post_id original_row, vvalues = embedding_vector,
                             vmetadata = metadata_payload\<rparr>]\<rparr>
                 in case flush_if_full e s1 of
                      (s2, Some err) \<Rightarrow> (s2, Some err)
                    | (s2, None) \<Rightarrow> items_loop e batch (Suc item_idx_in_batch) rest s2))
      else (s, Some IndexError))"

text \<open>
  One turn of the loop over the completed futures (lines 170 to 223): an exception of the
  provider or of the item loop is caught and printed, and the state reached is kept. The
  index of a future is that of a submitted batch.
\<close>

definition process_future :: "'v env \<Rightarrow> row list list \<Rightarrow> nat \<Rightarrow> 'v pstate \<Rightarrow> 'v pstate" where
  "process_future e all_batches batch_idx s =
     (if batch_idx < length all_batches then
        (let batch = all_batches ! batch_idx
         in case embed e batch_idx (map post_text batch) of
              Inl exc \<Rightarrow> s
            | Inr generated_embeddings_for_batch \<Rightarrow>
                fst (items_loop e batch 0 generated_embeddings_for_batch s))
      else s)"

text \<open>Lines 226 to 231: the remaining vectors. An exception here ends the script.\<close>

definition final_flush :: "'v env \<Rightarrow> 'v pstate \<Rightarrow> 'v pstate \<times> error option" where
  "final_flush e s =
     (if vectors_to_upsert_buffer s \<noteq> [] then
        (case upsert_with_retry e (vectors_to_upsert_buffer s) 3 5 (pworld s) of
           (w', Inl err) \<Rightarrow> (s\<lparr>pworld := w'\<rparr>, Some err)
         | (w', Inr succeeded_count) \<Rightarrow>
             (s\<lparr>pworld := w',
                processed_count_in_run :=
                  (if succeeded_count > 0 then processed_count_in_run s + succeeded_count
                   else processed_count_in_run s),
                vectors_to_upsert_buffer := []\<rparr>, None))
      else (s, None))"

text \<open>
  From the filtered frame to the end of the script (lines 140 to 233): every batch is
  submitted to the pool, so the provider is called once for each; the futures are taken
  in the order of their completion.
\<close>

definition embed_and_upsert :: "'v env \<Rightarrow> row list \<Rightarrow> 'v world \<Rightarrow> 'v pstate \<times> error option" where
  "embed_and_upsert e df w =
     (let all_batches = prepare_batches 0 df;
          all_text_batches_to_embed = map (map post_text) all_batches;
          w1 = w\<lparr>embed_log := embed_log w @ filter (\<lambda>t. t \<noteq> []) all_text_batches_to_embed\<rparr>;
          s0 = \<lparr>pworld = w1, vectors_to_upsert_buffer = [], processed_count_in_run = 0\<rparr>
      in final_flush e (fold (process_future e all_batches) (completion_order e) s0))"

text \<open>
  The script from the loading of the data on (lines 104 to 233), on an index that exists
  with the right dimension. With no row left after the filter the script exits.
\<close>

definition run :: "'v env \<Rightarrow> raw_row list \<Rightarrow> 'v world \<Rightarrow> 'v pstate \<times> error option" where
  "run e excel w =
     (let df = load_data excel;
          processed_ids_set = load_processed_ids (checkpoint_file w);
          df = resume processed_ids_set df
      in if df = [] then
           (\<lparr>pworld = w, vectors_to_upsert_buffer = [], processed_count_in_run = 0\<rparr>, None)
         else embed_and_upsert e df w)"

subsection \<open>Notions for stating the properties\<close>

text \<open>
  The checkpoint file can always be opened and every write to it succeeds. The file once
  the given ids have all been written to it, one on each line.
\<close>

definition writes_succeed :: "'v env \<Rightarrow> bool" where
  "writes_succeed e =
     ((\<forall>file. open_error e file = None) \<and> (\<forall>content text. write_error e content text = None))"

definition appended :: "string list \<Rightarrow> string option \<Rightarrow> string option" where
  "appended ids file =
     Some ((case file of None \<Rightarrow> [] | Some content \<Rightarrow> content) @
           concat (map (\<lambda>id_val. id_val @ [CHR 0x0A]) ids))"

text \<open>
  The vector built from a row and its embedding; the vectors of a completed batch once the
  provider has answered, one for each row; the provider answers the call for batch i with
  one vector for each text.
\<close>

definition row_vec :: "'v env \<Rightarrow> row \<Rightarrow> 'v \<Rightarrow> 'v vec" where
  "row_vec e r v =
     \<lparr>vid = post_id r, vvalues = v,
      vmetadata = (case metadata_loop e (row_items r) [] of Inl err \<Rightarrow> [] | Inr p \<Rightarrow> p)\<rparr>"

definition batch_vecs :: "'v env \<Rightarrow> row list list \<Rightarrow> nat \<Rightarrow> 'v vec list" where
  "batch_vecs e all_batches i =
     (case embed e i (map post_text (all_batches ! i)) of
        Inl err \<Rightarrow> []
      | Inr vs \<Rightarrow> map (\<lambda>(r, v). row_vec e r v) (zip (all_batches ! i) vs))"

definition provider_ok :: "'v env \<Rightarrow> row list list \<Rightarrow> nat \<Rightarrow> bool" where
  "provider_ok e all_batches i =
     (case provider e i (map post_text (all_batches ! i)) of
        Inl err \<Rightarrow> False
      | Inr vs \<Rightarrow> length vs = length (all_batches ! i))"

text \<open>
  Lines 207 to 218 for one vector (append it, flush when full), and for a list of vectors
  one after the other.
\<close>

definition append_vec :: "'v env \<Rightarrow> 'v vec \<Rightarrow> 'v pstate \<Rightarrow> 'v pstate" where
  "append_vec e v s =
     fst (flush_if_full e (s\<lparr>vectors_to_upsert_buffer := vectors_to_upsert_buffer s @ [v]\<rparr>))"

definition feed :: "'v env \<Rightarrow> 'v vec list \<Rightarrow> 'v pstate \<Rightarrow> 'v pstate" where
  "feed e vs s = fold (append_vec e) vs s"

text \<open>
  An upsert call that ends \<^verbatim>\<open>upsert_with_retry\<close> at once when the writes succeed: it
  returns, or it raises an error that is not retryable. The state after such a call on the
  batch \<open>b\<close>. The checkpoint file and the count after a list of such calls: the ids of a
  call that returned are appended, those of a call that raised are not.
\<close>

definition one_call_outcome :: "string option \<Rightarrow> bool" where
  "one_call_outcome outcome = (case outcome of None \<Rightarrow> True | Some msg \<Rightarrow> \<not> is_retryable msg)"

definition delivered :: "'v vec list \<Rightarrow> string option \<Rightarrow> 'v pstate \<Rightarrow> 'v pstate" where
  "delivered b outcome s =
     \<lparr>pworld = (pworld s)
        \<lparr>upsert_log := upsert_log (pworld s) @ [(b, outcome)],
         checkpoint_file :=
           (if outcome = None then appended (map vid b) (checkpoint_file (pworld s))
            else checkpoint_file (pworld s))\<rparr>,
      vectors_to_upsert_buffer = [],
      processed_count_in_run =
        (if outcome = None then processed_count_in_run s + int (length b) else processed_count_in_run s)\<rparr>"

fun checkpoint_after :: "('v vec list \<times> string option) list \<Rightarrow> string option \<Rightarrow> string option" where
  "checkpoint_after [] file = file"
| "checkpoint_after ((b, outcome) # calls) file =
     checkpoint_after calls (if outcome = None then appended (map vid b) file else file)"

fun count_after :: "('v vec list \<times> string option) list \<Rightarrow> int" where
  "count_after [] = 0"
| "count_after ((b, outcome) # calls) = (if outcome = None then int (length b) else 0) + count_after calls"

subsection \<open>Concrete environments and inputs\<close>

text \<open>
  A world in which nothing has happened yet; services that follow a script (the outcomes
  of the upsert calls in order, then success; the checkpoint file opened and written without
  an exception; one vector for each
  text; a given order of completion); and the inputs and outcomes of the worked runs.
\<close>

definition fresh_world :: "pyfloat list world" where
  "fresh_world = \<lparr>checkpoint_file = None, upsert_log = [], sleep_log = [], embed_log = []\<rparr>"

definition scripted_env :: "string option list \<Rightarrow> nat list \<Rightarrow> pyfloat list env" where
  "scripted_env outcomes order =
     \<lparr>sink_outcome = (\<lambda>k. if k < length outcomes then outcomes ! k else None),
      open_error = (\<lambda>file. None),
      write_error = (\<lambda>content text. None),
      provider = (\<lambda>i texts. Inr (map (\<lambda>t. [py_str t]) texts)),
      completion_order = order,
      column_dtype = (\<lambda>c. Object),
      empty_array_raises = False\<rparr>"

definition demo_vec :: "string \<Rightarrow> pyfloat list vec" where
  "demo_vec i = \<lparr>vid = i, vvalues = [''0.5''], vmetadata = []\<rparr>"

definition demo_batch :: "pyfloat list vec list" where
  "demo_batch = [demo_vec ''a'', demo_vec ''b'']"

definition timeout_then_ok :: "pyfloat list env" where
  "timeout_then_ok = scripted_env [Some ''Read timeout'', None] []"

definition delivered_world :: "pyfloat list world" where
  "delivered_world =
     \<lparr>checkpoint_file = Some [CHR ''a'', CHR 0x0A, CHR ''b'', CHR 0x0A],
      upsert_log = [(demo_batch, Some ''Read timeout''), (demo_batch, None)],
      sleep_log = [10], embed_log = []\<rparr>"

text \<open>The upsert returns, the write of the first id succeeds, the write of the second raises.\<close>

definition second_write_fails :: "pyfloat list env" where
  "second_write_fails =
     (scripted_env [] [])\<lparr>write_error :=
        (\<lambda>content text. if text = [CHR ''b'', CHR 0x0A] then Some ''surrogates not allowed'' else None)\<rparr>"

definition two_timeouts_then_ok :: "pyfloat list env" where
  "two_timeouts_then_ok = scripted_env [Some ''Read timeout'', Some ''Connection reset by peer'', None] []"

definition always_timeout :: "pyfloat list env" where
  "always_timeout = scripted_env [Some ''Read timeout'', Some ''Read timeout'', Some ''Read timeout'', Some ''Read timeout''] []"

definition exhausted_world :: "pyfloat list world" where
  "exhausted_world =
     \<lparr>checkpoint_file = None,
      upsert_log = [(demo_batch, Some ''Read timeout''), (demo_batch, Some ''Read timeout''),
                    (demo_batch, Some ''Read timeout'')],
      sleep_log = [10, 20], embed_log = []\<rparr>"

definition null_id_row :: raw_row where
  "null_id_row = \<lparr>raw_id = PNull NaN, raw_text = PStr ''hello'', raw_others = []\<rparr>"

definition one_batch_env :: "pyfloat list env" where
  "one_batch_env = scripted_env [] [0]"

definition demo_rows :: "row list" where
  "demo_rows = map (\<lambda>i. \<lparr>post_id = str_nat i, post_text = PStr ''some text'', others = []\<rparr>) [0..<250]"

definition out_of_order_env :: "pyfloat list env" where
  "out_of_order_env = scripted_env [] [2, 0, 1]"

definition auth_error_env :: "pyfloat list env" where
  "auth_error_env = scripted_env [Some ''Unauthorized: invalid API key''] [2, 0, 1]"

definition full_buffer :: "pyfloat list vec list" where
  "full_buffer = replicate 100 (demo_vec ''a'')"

definition full_state :: "pyfloat list pstate" where
  "full_state = \<lparr>pworld = fresh_world, vectors_to_upsert_buffer = full_buffer, processed_count_in_run = 0\<rparr>"

text \<open>
  A sheet of two rows whose id cells hold text, the first with a leading space; the second
  keeps the column from being read as numbers.
\<close>

definition padded_sheet :: "raw_row list" where
  "padded_sheet =
     [\<lparr>raw_id = PStr '' 7'', raw_text = PStr ''hello'', raw_others = []\<rparr>,
      \<lparr>raw_id = PStr ''post_8'', raw_text = PStr ''world'', raw_others = []\<rparr>]"

definition padded_vec :: "pyfloat list vec" where
  "padded_vec = \<lparr>vid = '' 7'', vvalues = [''hello''],
     vmetadata = [(''post_id'', MStr '' 7''), (''post_text'', MStr ''hello'')]\<rparr>"

definition post_8_vec :: "pyfloat list vec" where
  "post_8_vec = \<lparr>vid = ''post_8'', vvalues = [''world''],
     vmetadata = [(''post_id'', MStr ''post_8''), (''post_text'', MStr ''world'')]\<rparr>"

definition after_padded_run :: "pyfloat list world" where
  "after_padded_run =
     \<lparr>checkpoint_file = Some ('' 7'' @ [CHR 0x0A] @ ''post_8'' @ [CHR 0x0A]),
      upsert_log = [([padded_vec, post_8_vec], None)],
      sleep_log = [], embed_log = [[PStr ''hello'', PStr ''world'']]\<rparr>"

section \<open>Properties\<close>

subsection \<open>upsert\_with\_retry\<close>

declare retry_loop.simps [simp del]

lemma actual_delay_nonneg: "0 \<le> d \<Longrightarrow> 0 \<le> actual_delay d k"
  by (simp add: actual_delay_def)

lemma actual_delay_neg: "d < 0 \<Longrightarrow> actual_delay d k < 0"
proof -
  assume "d < 0"
  then have "d * 2 ^ k < 0" by (simp add: mult_less_0_iff)
  then show ?thesis by (simp add: actual_delay_def)
qed

lemma write_ids_ok:
  "writes_succeed e \<Longrightarrow>
   write_ids e ids content = (content @ concat (map (\<lambda>id_val. id_val @ [CHR 0x0A]) ids), None)"
  by (induction ids arbitrary: content) (simp_all add: writes_succeed_def id_line_def newline_def)

lemma save_processed_ids_ok:
  "writes_succeed e \<Longrightarrow> save_processed_ids e ids file = (appended ids file, None)"
proof -
  assume ws: "writes_succeed e"
  then have "open_error e file = None" by (simp add: writes_succeed_def)
  then show ?thesis
    by (simp add: save_processed_ids_def appended_def write_ids_ok [OF ws])
qed

lemma write_ids_returns:
  "write_ids e ids content = (content', None) \<Longrightarrow>
   content' = content @ concat (map (\<lambda>id_val. id_val @ [CHR 0x0A]) ids)"
proof (induction ids arbitrary: content)
  case Nil
  then show ?case by simp
next
  case (Cons id_val ids)
  from Cons.prems have "write_ids e ids (content @ id_line id_val) = (content', None)"
    by (simp split: option.splits)
  from Cons.IH [OF this] show ?case
    by (simp add: id_line_def newline_def)
qed

lemma write_ids_extends: "\<exists>written. fst (write_ids e ids content) = content @ written"
proof (induction ids arbitrary: content)
  case Nil
  then show ?case by simp
next
  case (Cons id_val ids)
  show ?case
  proof (cases "write_error e content (id_line id_val)")
    case None
    from Cons [of "content @ id_line id_val"] obtain written
      where "fst (write_ids e ids (content @ id_line id_val)) = (content @ id_line id_val) @ written" ..
    with None show ?thesis by simp
  next
    case (Some msg)
    then show ?thesis by simp
  qed
qed

lemma save_processed_ids_returns:
  "save_processed_ids e ids file = (file', None) \<Longrightarrow> file' = appended ids file"
  by (auto simp: save_processed_ids_def appended_def split: option.splits prod.splits
      dest: write_ids_returns)

lemma save_processed_ids_extends:
  "\<exists>written. (case fst (save_processed_ids e ids file) of None \<Rightarrow> [] | Some content \<Rightarrow> content) =
     (case file of None \<Rightarrow> [] | Some content \<Rightarrow> content) @ written"
proof (cases "open_error e file")
  case None
  obtain written where
    "fst (write_ids e ids (case file of None \<Rightarrow> [] | Some content \<Rightarrow> content)) =
       (case file of None \<Rightarrow> [] | Some content \<Rightarrow> content) @ written"
    using write_ids_extends by blast
  with None show ?thesis
    by (auto simp: save_processed_ids_def split: prod.splits)
next
  case (Some msg)
  then show ?thesis by (simp add: save_processed_ids_def)
qed

lemma try_body_raises:
  "sink_outcome e (length (upsert_log w)) = Some msg \<Longrightarrow>
   try_body e b w = (w\<lparr>upsert_log := upsert_log w @ [(b, Some msg)]\<rparr>, Inl msg)"
  by (simp add: try_body_def upsert_def Let_def)

lemma try_body_returns:
  "sink_outcome e (length (upsert_log w)) = None \<Longrightarrow> writes_succeed e \<Longrightarrow>
   try_body e b w =
     (w\<lparr>upsert_log := upsert_log w @ [(b, None)],
        checkpoint_file := appended (map vid b) (checkpoint_file w)\<rparr>, Inr (int (length b)))"
  by (simp add: try_body_def upsert_def Let_def save_processed_ids_ok)

lemma try_body_frame:
  "try_body e b w = (w1, out) \<Longrightarrow>
   sleep_log w1 = sleep_log w \<and> embed_log w1 = embed_log w \<and>
   upsert_log w1 = upsert_log w @ [(b, sink_outcome e (length (upsert_log w)))] \<and>
   (sink_outcome e (length (upsert_log w)) \<noteq> None \<longrightarrow> checkpoint_file w1 = checkpoint_file w) \<and>
   (case out of Inr n \<Rightarrow> n = int (length b) \<and> sink_outcome e (length (upsert_log w)) = None \<and>
                         checkpoint_file w1 = appended (map vid b) (checkpoint_file w)
              | Inl msg \<Rightarrow> True)"
  by (auto simp: try_body_def upsert_def Let_def split: option.splits prod.splits
      dest: save_processed_ids_returns)

lemma try_body_extends:
  "try_body e b w = (w1, out) \<Longrightarrow>
   \<exists>written. (case checkpoint_file w1 of None \<Rightarrow> [] | Some content \<Rightarrow> content) =
     (case checkpoint_file w of None \<Rightarrow> [] | Some content \<Rightarrow> content) @ written"
proof (cases "sink_outcome e (length (upsert_log w))")
  case None
  assume tb: "try_body e b w = (w1, out)"
  then have "checkpoint_file w1 = fst (save_processed_ids e (map vid b) (checkpoint_file w))"
    using None by (auto simp: try_body_def upsert_def Let_def split: option.splits prod.splits)
  then show ?thesis
    using save_processed_ids_extends [of e "map vid b" "checkpoint_file w"] by simp
next
  case (Some msg)
  assume tb: "try_body e b w = (w1, out)"
  with Some have "checkpoint_file w1 = checkpoint_file w"
    by (auto simp: try_body_raises)
  then show ?thesis by simp
qed

lemma retry_loop_success:
  "int r < m \<Longrightarrow> sink_outcome e (length (upsert_log w)) = None \<Longrightarrow> writes_succeed e \<Longrightarrow>
   retry_loop e b m d r w =
     (w\<lparr>upsert_log := upsert_log w @ [(b, None)],
        checkpoint_file := appended (map vid b) (checkpoint_file w)\<rparr>, Inr (int (length b)))"
  by (simp add: retry_loop.simps [of e b m d r w] try_body_returns)

lemma retry_loop_non_retryable:
  "int r < m \<Longrightarrow> sink_outcome e (length (upsert_log w)) = Some msg \<Longrightarrow> \<not> is_retryable msg \<Longrightarrow>
   retry_loop e b m d r w = (w\<lparr>upsert_log := upsert_log w @ [(b, Some msg)]\<rparr>, Inr 0)"
  by (simp add: retry_loop.simps [of e b m d r w] try_body_raises)

lemma retry_loop_exhausted:
  "int r < m \<Longrightarrow> \<not> int r < m - 1 \<Longrightarrow> sink_outcome e (length (upsert_log w)) = Some msg \<Longrightarrow>
   retry_loop e b m d r w = (w\<lparr>upsert_log := upsert_log w @ [(b, Some msg)]\<rparr>, Inr 0)"
  by (simp add: retry_loop.simps [of e b m d r w] try_body_raises)

lemma retry_loop_retry:
  "int r < m - 1 \<Longrightarrow> sink_outcome e (length (upsert_log w)) = Some msg \<Longrightarrow> is_retryable msg \<Longrightarrow> 0 \<le> d \<Longrightarrow>
   retry_loop e b m d r w =
     retry_loop e b m d (Suc r)
       (w\<lparr>upsert_log := upsert_log w @ [(b, Some msg)], sleep_log := sleep_log w @ [actual_delay d (Suc r)]\<rparr>)"
  using actual_delay_nonneg [of d "Suc r"]
  by (simp add: retry_loop.simps [of e b m d r w] try_body_raises sleep_def)

lemma retry_loop_all_retryable:
  "nat m - r = n \<Longrightarrow> 0 \<le> d \<Longrightarrow>
   \<forall>k<n. \<exists>msg. sink_outcome e (length (upsert_log w) + k) = Some msg \<and> is_retryable msg \<Longrightarrow>
   retry_loop e b m d r w =
     (w\<lparr>upsert_log := upsert_log w @ map (\<lambda>k. (b, sink_outcome e (length (upsert_log w) + k))) [0..<n],
        sleep_log := sleep_log w @ map (actual_delay d) [Suc r..<r + n]\<rparr>, Inr 0)"
proof (induction n arbitrary: r w)
  case 0
  then have "\<not> int r < m" by linarith
  then show ?case by (simp add: retry_loop.simps [of e b m d r w])
next
  case (Suc n)
  from Suc.prems(1) have lt: "int r < m" by linarith
  from Suc.prems(3) obtain msg where msg: "sink_outcome e (length (upsert_log w)) = Some msg" "is_retryable msg"
    by force
  show ?case
  proof (cases n)
    case 0
    then have "\<not> int r < m - 1" using Suc.prems(1) by linarith
    with lt msg 0 show ?thesis
      by (simp add: retry_loop_exhausted)
  next
    case (Suc n')
    then have lt1: "int r < m - 1" using Suc.prems(1) by linarith
    let ?w = "w\<lparr>upsert_log := upsert_log w @ [(b, Some msg)], sleep_log := sleep_log w @ [actual_delay d (Suc r)]\<rparr>"
    have n: "nat m - Suc r = n" using Suc.prems(1) by linarith
    have all: "\<forall>k<n. \<exists>msg. sink_outcome e (length (upsert_log ?w) + k) = Some msg \<and> is_retryable msg"
      using Suc.prems(3) by (auto simp: less_Suc_eq_0_disj)
    have up: "[0..<Suc n] = 0 # map Suc [0..<n]"
      by (simp add: upt_conv_Cons map_Suc_upt del: upt_Suc)
    have up2: "[Suc r..<r + Suc n] = Suc r # [Suc (Suc r)..<Suc r + n]"
      using Suc by (simp add: upt_conv_Cons del: upt_Suc)
    show ?thesis
      unfolding retry_loop_retry [OF lt1 msg Suc.prems(2)] Suc.IH [OF n Suc.prems(2) all] up up2
      by (simp add: msg o_def)
  qed
qed

text \<open>
  The sleeps of the loop are tied to its upsert calls: started at \<open>retries = r\<close>, a loop
  that makes n calls has slept before each call but the first, for the lengths that the
  formula gives for the retries \<open>r + 1\<close> to \<open>r + n - 1\<close>; and it makes at most
  \<open>max_retries - r\<close> calls.
\<close>

lemma sleeps_match_calls:
  "retry_loop e b m d r w = (w', res) \<Longrightarrow>
   \<exists>n. length (upsert_log w') = length (upsert_log w) + n \<and> int n \<le> max 0 (m - int r) \<and>
       (int r < m \<longrightarrow> 0 < n) \<and>
       sleep_log w' = sleep_log w @ map (actual_delay d) [Suc r..<r + n] \<and>
       (n \<le> 1 \<or> 0 \<le> d)"
proof (induction e b m d r w arbitrary: w' res rule: retry_loop.induct)
  case (1 e b m d r w)
  show ?case
  proof (cases "int r < m")
    case False
    with "1.prems" show ?thesis
      by (simp add: retry_loop.simps [of e b m d r w])
  next
    case True
    note lt = True
    obtain w1 out where tb: "try_body e b w = (w1, out)" by (cases "try_body e b w")
    from try_body_frame [OF tb]
    have w1: "sleep_log w1 = sleep_log w" "length (upsert_log w1) = length (upsert_log w) + 1"
      by simp_all
    have one: "w' = w1 \<Longrightarrow> ?thesis"
      using w1 lt by (intro exI [of _ 1]) simp
    show ?thesis
    proof (cases out)
      case (Inr n)
      with "1.prems" lt tb have "w' = w1"
        by (simp add: retry_loop.simps [of e b m d r w])
      then show ?thesis by (rule one)
    next
      case (Inl msg)
      show ?thesis
      proof (cases "is_retryable msg \<and> int r < m - 1")
        case False
        with "1.prems" lt tb Inl have "w' = w1"
          by (auto simp: retry_loop.simps [of e b m d r w])
        then show ?thesis by (rule one)
      next
        case True
        show ?thesis
        proof (cases "sleep (actual_delay d (r + 1)) w1")
          case (Inl err)
          with "1.prems" lt tb \<open>out = Inl msg\<close> True have "w' = w1"
            by (auto simp: retry_loop.simps [of e b m d r w])
          then show ?thesis by (rule one)
        next
          case (Inr w2)
          then have w2: "sleep_log w2 = sleep_log w1 @ [actual_delay d (Suc r)]"
            "upsert_log w2 = upsert_log w1" and nn: "0 \<le> actual_delay d (Suc r)"
            by (auto simp: sleep_def split: if_splits)
          have d: "0 \<le> d"
            using nn actual_delay_neg [of d "Suc r"] by linarith
          have rec: "retry_loop e b m d (r + 1) w2 = (w', res)"
            using "1.prems" lt tb \<open>out = Inl msg\<close> True Inr
            by (simp add: retry_loop.simps [of e b m d r w])
          from "1.IH" [OF lt tb [symmetric] \<open>out = Inl msg\<close> True Inr rec]
          obtain n where n: "length (upsert_log w') = length (upsert_log w2) + n"
            "int n \<le> max 0 (m - int (r + 1))"
            "sleep_log w' = sleep_log w2 @ map (actual_delay d) [Suc (r + 1)..<r + 1 + n]"
            "int (r + 1) < m \<longrightarrow> 0 < n"
            by blast
          from n(4) True have pos: "0 < n" by simp
          have up: "[Suc r..<r + Suc n] = Suc r # [Suc (r + 1)..<r + 1 + n]"
            using pos by (simp add: upt_conv_Cons del: upt_Suc)
          have sl: "sleep_log w' = sleep_log w @ map (actual_delay d) [Suc r..<r + Suc n]"
            using n w1 w2 up by simp
          show ?thesis
            using n w1 w2 sl d True by (intro exI [of _ "Suc n"]) auto
        qed
      qed
    qed
  qed
qed

lemma try_body_result:
  "try_body e b w = (w1, Inr n) \<Longrightarrow> n = int (length b)"
  using try_body_frame [of e b w w1 "Inr n"] by simp

lemma retry_loop_returns:
  "retry_loop e b m d r w = (w', res) \<Longrightarrow> 0 \<le> d \<Longrightarrow> res = Inr 0 \<or> res = Inr (int (length b))"
proof (induction e b m d r w arbitrary: w' res rule: retry_loop.induct)
  case (1 e b m d r w)
  show ?case
  proof (cases "int r < m")
    case False
    with "1.prems" show ?thesis
      by (simp add: retry_loop.simps [of e b m d r w])
  next
    case True
    note lt = True
    obtain w1 out where tb: "try_body e b w = (w1, out)" by (cases "try_body e b w")
    show ?thesis
    proof (cases out)
      case (Inr n)
      with tb have "n = int (length b)" by (simp add: try_body_result)
      with "1.prems" lt tb Inr show ?thesis
        by (simp add: retry_loop.simps [of e b m d r w])
    next
      case (Inl msg)
      show ?thesis
      proof (cases "is_retryable msg \<and> int r < m - 1")
        case False
        with "1.prems" lt tb Inl show ?thesis
          by (auto simp: retry_loop.simps [of e b m d r w])
      next
        case True
        have "0 \<le> actual_delay d (r + 1)"
          using "1.prems"(2) by (rule actual_delay_nonneg)
        then obtain w2 where w2: "sleep (actual_delay d (r + 1)) w1 = Inr w2"
          by (simp add: sleep_def)
        have rec: "retry_loop e b m d (r + 1) w2 = (w', res)"
          using "1.prems" lt tb Inl True w2
          by (simp add: retry_loop.simps [of e b m d r w])
        from "1.IH" [OF lt tb [symmetric] Inl True w2 rec "1.prems"(2)] show ?thesis .
      qed
    qed
  qed
qed



lemma actual_delay_mono: "0 \<le> d \<Longrightarrow> j \<le> k \<Longrightarrow> actual_delay d j \<le> actual_delay d k"
proof -
  assume d: "0 \<le> d" and jk: "j \<le> k"
  have "(2::int) ^ j \<le> 2 ^ k" using jk by (simp add: power_increasing)
  then have "d * 2 ^ j \<le> d * 2 ^ k" using d by (rule mult_left_mono)
  then show ?thesis by (simp add: actual_delay_def)
qed

lemma actual_delay_capped: "j \<le> k \<Longrightarrow> actual_delay d j = 60 \<Longrightarrow> actual_delay d k = 60"
proof -
  assume jk: "j \<le> k" and c: "actual_delay d j = 60"
  have "0 \<le> d"
    using c actual_delay_neg [of d j] by linarith
  then have "actual_delay d j \<le> actual_delay d k" using jk by (rule actual_delay_mono)
  moreover have "actual_delay d k \<le> 60" by (simp add: actual_delay_def)
  ultimately show ?thesis using c by simp
qed

lemma sorted_delays: "0 \<le> d \<Longrightarrow> sorted (map (actual_delay d) [i..<j])"
  by (simp add: sorted_map sorted_wrt_iff_nth_less actual_delay_mono)

text \<open>
  The effect of the loop on the upsert log and on the checkpoint file. Whatever the writes
  do: the file changes only when an upsert call returned; and when the size of the batch is
  returned, the last upsert call returned and the file ends with the ids of the batch,
  after what earlier attempts of the loop may have written. When the writes succeed, the
  loop ends after the first call that returns, with the ids appended.
\<close>

lemma retry_loop_effect:
  "retry_loop e b m d r w = (w', res) \<Longrightarrow>
   \<exists>os. upsert_log w' = upsert_log w @ map (Pair b) os \<and>
     (None \<notin> set os \<longrightarrow>
        checkpoint_file w' = checkpoint_file w \<and> (res = Inr 0 \<or> (res = Inl ValueError \<and> d < 0))) \<and>
     (res = Inr (int (length b)) \<and> b \<noteq> [] \<longrightarrow>
        os \<noteq> [] \<and> last os = None \<and>
        (\<exists>earlier. checkpoint_file w' =
           Some ((case checkpoint_file w of None \<Rightarrow> [] | Some content \<Rightarrow> content) @ earlier @
                 concat (map (\<lambda>v. vid v @ [CHR 0x0A]) b)))) \<and>
     (writes_succeed e \<longrightarrow>
       (res = Inr (int (length b)) \<and> checkpoint_file w' = appended (map vid b) (checkpoint_file w)
          \<and> os \<noteq> [] \<and> last os = None \<and> None \<notin> set (butlast os))
        \<or> (None \<notin> set os \<and> checkpoint_file w' = checkpoint_file w \<and>
            (res = Inr 0 \<or> (res = Inl ValueError \<and> d < 0))))"
proof (induction e b m d r w arbitrary: w' res rule: retry_loop.induct)
  case (1 e b m d r w)
  let ?old = "case checkpoint_file w of None \<Rightarrow> [] | Some content \<Rightarrow> content"
  let ?lines = "concat (map (\<lambda>v. vid v @ [CHR 0x0A]) b)"
  show ?case
  proof (cases "int r < m")
    case False
    with "1.prems" show ?thesis
      by (auto simp: retry_loop.simps [of e b m d r w])
  next
    case True
    note lt = True
    obtain w1 out where tb: "try_body e b w = (w1, out)" by (cases "try_body e b w")
    define oc where "oc = sink_outcome e (length (upsert_log w))"
    from try_body_frame [OF tb]
    have w1: "upsert_log w1 = upsert_log w @ [(b, oc)]"
      "oc \<noteq> None \<Longrightarrow> checkpoint_file w1 = checkpoint_file w"
      by (simp_all add: oc_def)
    have ok: "out = Inr (int (length b)) \<and> checkpoint_file w1 = appended (map vid b) (checkpoint_file w)"
      if "oc = None" "writes_succeed e"
      using try_body_returns [of e w b] that tb by (simp add: oc_def)
    show ?thesis
    proof (cases out)
      case (Inr n)
      with try_body_frame [OF tb] have n: "n = int (length b)" "oc = None"
        "checkpoint_file w1 = appended (map vid b) (checkpoint_file w)"
        by (simp_all add: oc_def)
      from "1.prems" lt tb Inr have "w' = w1" "res = Inr n"
        by (simp_all add: retry_loop.simps [of e b m d r w])
      then have eq: "w' = w1" "res = Inr (int (length b))"
        using n(1) by simp_all
      have f1: "checkpoint_file w1 = Some (?old @ [] @ ?lines)"
        by (simp add: n(3) appended_def o_def)
      have a: "upsert_log w' = upsert_log w @ map (Pair b) [None]"
        using w1(1) n(2) eq(1) by simp
      have c: "\<exists>earlier. checkpoint_file w' = Some (?old @ earlier @ ?lines)"
        using f1 eq(1) by blast
      show ?thesis
        apply (rule exI [of _ "[None]"])
        apply (intro conjI impI)
        subgoal by (rule a)
        subgoal by simp
        subgoal by simp
        subgoal by simp
        subgoal by simp
        subgoal by (rule c)
        subgoal using eq n(3) by simp
        done
    next
      case (Inl msg)
      have some: "oc \<noteq> None" if "writes_succeed e"
        using ok that Inl by auto
      have stop: ?thesis if "w' = w1" "res = Inr 0 \<or> (res = Inl ValueError \<and> d < 0)"
        using that w1 some by (intro exI [of _ "[oc]"]) (cases oc; auto)
      show ?thesis
      proof (cases "is_retryable msg \<and> int r < m - 1")
        case False
        with "1.prems" lt tb Inl have "w' = w1" "res = Inr 0"
          by (auto simp: retry_loop.simps [of e b m d r w])
        then show ?thesis by (intro stop) simp_all
      next
        case True
        show ?thesis
        proof (cases "sleep (actual_delay d (r + 1)) w1")
          case (Inl err)
          then have "err = ValueError" "actual_delay d (r + 1) < 0"
            by (auto simp: sleep_def split: if_splits)
          moreover have "d < 0"
            using calculation(2) actual_delay_nonneg [of d "r + 1"] by linarith
          moreover have "w' = w1" "res = Inl err"
            using "1.prems" lt tb \<open>out = Inl msg\<close> True Inl
            by (auto simp: retry_loop.simps [of e b m d r w])
          ultimately show ?thesis by (intro stop) simp_all
        next
          case (Inr w2)
          then have w2: "upsert_log w2 = upsert_log w1" "checkpoint_file w2 = checkpoint_file w1"
            by (auto simp: sleep_def split: if_splits)
          have rec: "retry_loop e b m d (r + 1) w2 = (w', res)"
            using "1.prems" lt tb \<open>out = Inl msg\<close> True Inr
            by (simp add: retry_loop.simps [of e b m d r w])
          from try_body_extends [OF tb] obtain written where
            written: "(case checkpoint_file w1 of None \<Rightarrow> [] | Some content \<Rightarrow> content) = ?old @ written" ..
          from "1.IH" [OF lt tb [symmetric] \<open>out = Inl msg\<close> True Inr rec]
          obtain os where os: "upsert_log w' = upsert_log w2 @ map (Pair b) os"
            "None \<notin> set os \<longrightarrow>
               checkpoint_file w' = checkpoint_file w2 \<and> (res = Inr 0 \<or> (res = Inl ValueError \<and> d < 0))"
            "res = Inr (int (length b)) \<and> b \<noteq> [] \<longrightarrow>
               os \<noteq> [] \<and> last os = None \<and>
               (\<exists>earlier. checkpoint_file w' =
                  Some ((case checkpoint_file w2 of None \<Rightarrow> [] | Some content \<Rightarrow> content) @ earlier @ ?lines))"
            "writes_succeed e \<longrightarrow>
              (res = Inr (int (length b)) \<and> checkpoint_file w' = appended (map vid b) (checkpoint_file w2)
                \<and> os \<noteq> [] \<and> last os = None \<and> None \<notin> set (butlast os))
              \<or> (None \<notin> set os \<and> checkpoint_file w' = checkpoint_file w2 \<and>
                  (res = Inr 0 \<or> (res = Inl ValueError \<and> d < 0)))"
            by blast
          have a: "upsert_log w' = upsert_log w @ map (Pair b) (oc # os)"
            using os(1) w1(1) w2(1) by simp
          have b: "checkpoint_file w' = checkpoint_file w \<and> (res = Inr 0 \<or> (res = Inl ValueError \<and> d < 0))"
            if "None \<notin> set (oc # os)"
            using that os(2) w1(2) w2(2) by (cases oc; auto)
          have c: "oc # os \<noteq> [] \<and> last (oc # os) = None \<and>
               (\<exists>earlier. checkpoint_file w' = Some (?old @ earlier @ ?lines))"
            if h: "res = Inr (int (length b)) \<and> b \<noteq> []"
          proof -
            from os(3) h obtain earlier where e: "os \<noteq> []" "last os = None"
              "checkpoint_file w' =
                 Some ((case checkpoint_file w2 of None \<Rightarrow> [] | Some content \<Rightarrow> content) @ earlier @ ?lines)"
              by blast
            have "checkpoint_file w' = Some (?old @ (written @ earlier) @ ?lines)"
              using e(3) written w2(2) by simp
            then show ?thesis using e(1,2) by auto
          qed
          have d: "(res = Inr (int (length b)) \<and> checkpoint_file w' = appended (map vid b) (checkpoint_file w)
                \<and> oc # os \<noteq> [] \<and> last (oc # os) = None \<and> None \<notin> set (butlast (oc # os)))
              \<or> (None \<notin> set (oc # os) \<and> checkpoint_file w' = checkpoint_file w \<and>
                  (res = Inr 0 \<or> (res = Inl ValueError \<and> d < 0)))"
            if "writes_succeed e"
            using os(4) some [OF that] w1(2) w2(2) that by (cases oc; auto)
          from a b c d show ?thesis
            by (intro exI [of _ "oc # os"]) blast
        qed
      qed
    qed
  qed
qed

text \<open>
  Claim C10. Called with an empty batch, \<^verbatim>\<open>upsert_with_retry\<close> returns 0 and leaves the
  world as it is: no upsert call, no sleep, nothing appended to the checkpoint file.
\<close>

theorem upsert_with_retry_empty:
  "upsert_with_retry e [] max_retries initial_delay w = (w, Inr 0)"
  by (simp add: upsert_with_retry_def)

lemma timeout_then_ok_run:
  "upsert_with_retry timeout_then_ok demo_batch 3 5 fresh_world = (delivered_world, Inr 2)"
proof -
  have r: "is_retryable ''Read timeout''" by code_simp
  show ?thesis
    by (simp add: upsert_with_retry_def retry_loop.simps try_body_def upsert_def Let_def sleep_def
        actual_delay_def scripted_env_def fresh_world_def r save_processed_ids_def id_line_def
        newline_def demo_vec_def timeout_then_ok_def demo_batch_def delivered_world_def)
qed

lemma always_timeout_run:
  "upsert_with_retry always_timeout demo_batch 3 5 fresh_world = (exhausted_world, Inr 0)"
proof -
  have r: "is_retryable ''Read timeout''" by code_simp
  show ?thesis
    by (simp add: upsert_with_retry_def retry_loop.simps try_body_def upsert_def Let_def sleep_def
        actual_delay_def scripted_env_def fresh_world_def r always_timeout_def demo_batch_def
        exhausted_world_def)
qed

lemma writes_succeed_scripted: "writes_succeed (scripted_env outcomes order)"
  by (simp add: writes_succeed_def scripted_env_def)

text \<open>
  Claim C1, as the claim states it, fails. The upsert of a batch of two vectors returns;
  the write of the first id succeeds and the write of the second raises (as the write of an
  id that the encoding of the file cannot represent does), with a message that is not
  retryable. The handler of line 64 catches the exception: the call returns 0 after a
  successful upsert, with the first id of the batch, and only that one, appended.
\<close>

theorem failed_write_leaves_part_of_the_batch:
  "upsert_with_retry second_write_fails demo_batch 3 5 fresh_world =
     (\<lparr>checkpoint_file = Some [CHR ''a'', CHR 0x0A],
       upsert_log = [(demo_batch, None)],
       sleep_log = [], embed_log = []\<rparr>, Inr 0)"
proof -
  have r: "\<not> is_retryable ''surrogates not allowed''" by code_simp
  show ?thesis
    by (simp add: upsert_with_retry_def retry_loop.simps try_body_def upsert_def Let_def
        scripted_env_def fresh_world_def r save_processed_ids_def id_line_def
        newline_def demo_vec_def second_write_fails_def demo_batch_def)
qed

text \<open>
  Claim C1, amended. A call of \<^verbatim>\<open>upsert_with_retry\<close> on a non-empty batch, with a delay
  that is not negative, makes upsert calls on that batch only and returns the size of the
  batch or 0. When none of its upsert calls returned, the checkpoint file is as before and
  the call returns 0: no id is appended before an upsert of its batch has succeeded. When
  the call returns the size of the batch, its last upsert call succeeded and the file ends
  with one line for each id of the batch, in order, after the old content and what earlier
  attempts of the call may have written. When the file is opened and written without an
  exception, the call ends in exactly one of two ways. Either its last upsert call
  succeeded, all earlier ones having failed, the file is the old one followed by one line
  for each id of the batch, and it returns the size of the batch. Or no upsert call
  succeeded, the file is as before, and it returns 0. The two returned values differ.
\<close>

theorem ids_appended_only_after_upsert:
  assumes "vectors_batch \<noteq> []" and "0 \<le> initial_delay"
    and "upsert_with_retry e vectors_batch max_retries initial_delay w = (w', res)"
  shows "\<exists>outcomes. upsert_log w' = upsert_log w @ map (Pair vectors_batch) outcomes \<and>
     (res = Inr (int (length vectors_batch)) \<or> res = Inr 0) \<and>
     (None \<notin> set outcomes \<longrightarrow> checkpoint_file w' = checkpoint_file w \<and> res = Inr 0) \<and>
     (res = Inr (int (length vectors_batch)) \<longrightarrow>
        outcomes \<noteq> [] \<and> last outcomes = None \<and>
        (\<exists>earlier. checkpoint_file w' =
           Some ((case checkpoint_file w of None \<Rightarrow> [] | Some content \<Rightarrow> content) @ earlier @
                 concat (map (\<lambda>v. vid v @ [CHR 0x0A]) vectors_batch)))) \<and>
     (writes_succeed e \<longrightarrow>
       ((res = Inr (int (length vectors_batch)) \<and>
         checkpoint_file w' =
           Some ((case checkpoint_file w of None \<Rightarrow> [] | Some content \<Rightarrow> content) @
                 concat (map (\<lambda>v. vid v @ [CHR 0x0A]) vectors_batch)) \<and>
         outcomes \<noteq> [] \<and> last outcomes = None \<and> None \<notin> set (butlast outcomes))
        \<or> (res = Inr 0 \<and> checkpoint_file w' = checkpoint_file w \<and> None \<notin> set outcomes))
       \<and> int (length vectors_batch) \<noteq> 0)"
proof -
  from assms have r: "retry_loop e vectors_batch max_retries initial_delay 0 w = (w', res)"
    by (simp add: upsert_with_retry_def)
  from retry_loop_effect [OF r] obtain os where
    os: "upsert_log w' = upsert_log w @ map (Pair vectors_batch) os"
      "None \<notin> set os \<longrightarrow>
        checkpoint_file w' = checkpoint_file w \<and> (res = Inr 0 \<or> (res = Inl ValueError \<and> initial_delay < 0))"
      "res = Inr (int (length vectors_batch)) \<and> vectors_batch \<noteq> [] \<longrightarrow>
        os \<noteq> [] \<and> last os = None \<and>
        (\<exists>earlier. checkpoint_file w' =
           Some ((case checkpoint_file w of None \<Rightarrow> [] | Some content \<Rightarrow> content) @ earlier @
                 concat (map (\<lambda>v. vid v @ [CHR 0x0A]) vectors_batch)))"
      "writes_succeed e \<longrightarrow>
       (res = Inr (int (length vectors_batch)) \<and>
        checkpoint_file w' = appended (map vid vectors_batch) (checkpoint_file w)
          \<and> os \<noteq> [] \<and> last os = None \<and> None \<notin> set (butlast os))
        \<or> (None \<notin> set os \<and> checkpoint_file w' = checkpoint_file w \<and>
            (res = Inr 0 \<or> (res = Inl ValueError \<and> initial_delay < 0)))"
    by blast
  have ap: "appended (map vid vectors_batch) (checkpoint_file w) =
      Some ((case checkpoint_file w of None \<Rightarrow> [] | Some content \<Rightarrow> content) @
            concat (map (\<lambda>v. vid v @ [CHR 0x0A]) vectors_batch))"
    by (simp add: appended_def o_def)
  have ret: "res = Inr (int (length vectors_batch)) \<or> res = Inr 0"
    using retry_loop_returns [OF r assms(2)] by blast
  show ?thesis
    apply (rule exI [of _ os])
    apply (intro conjI)
    subgoal by (rule os(1))
    subgoal by (rule ret)
    subgoal using os(2) assms(2) by auto
    subgoal using os(3) assms(1) by blast
    subgoal using os(4) assms(1,2) unfolding ap by auto
    done
qed

text \<open>
  Two runs of the theorem, the writes succeeding in both: a batch of two vectors, a timeout
  at the first call, success at the second, after a sleep of 10 seconds; and the same batch
  with a timeout at each of the three calls.
\<close>

theorem ids_appended_only_after_upsert_witness:
  "demo_batch \<noteq> [] \<and> (0::int) \<le> 5 \<and> writes_succeed timeout_then_ok \<and>
   upsert_with_retry timeout_then_ok demo_batch 3 5 fresh_world = (delivered_world, Inr 2) \<and>
   upsert_log delivered_world = upsert_log fresh_world @ map (Pair demo_batch) [Some ''Read timeout'', None] \<and>
   checkpoint_file delivered_world = Some [CHR ''a'', CHR 0x0A, CHR ''b'', CHR 0x0A] \<and>
   upsert_with_retry always_timeout demo_batch 3 5 fresh_world = (exhausted_world, Inr 0) \<and>
   upsert_log exhausted_world =
     upsert_log fresh_world @ map (Pair demo_batch) [Some ''Read timeout'', Some ''Read timeout'', Some ''Read timeout''] \<and>
   checkpoint_file exhausted_world = checkpoint_file fresh_world"
proof -
  have ne: "demo_batch \<noteq> []" by (simp add: demo_batch_def)
  have d: "(0::int) \<le> 5" by simp
  have ws: "writes_succeed timeout_then_ok"
    by (simp add: timeout_then_ok_def writes_succeed_scripted)
  from ids_appended_only_after_upsert [OF ne d timeout_then_ok_run] ws
  obtain os where os: "upsert_log delivered_world = upsert_log fresh_world @ map (Pair demo_batch) os"
    "(Inr 2 = (Inr (int (length demo_batch)) :: error + int) \<and>
       checkpoint_file delivered_world =
         Some ((case checkpoint_file fresh_world of None \<Rightarrow> [] | Some content \<Rightarrow> content) @
               concat (map (\<lambda>v. vid v @ [CHR 0x0A]) demo_batch)))
     \<or> ((Inr 2 :: error + int) = Inr 0)"
    by blast
  have os1: "os = [Some ''Read timeout'', None]"
    using os(1) by (auto simp: delivered_world_def fresh_world_def map_eq_Cons_conv)
  have f1: "checkpoint_file delivered_world = Some [CHR ''a'', CHR 0x0A, CHR ''b'', CHR 0x0A]"
    using os(2) by (simp add: fresh_world_def demo_batch_def demo_vec_def)
  from ids_appended_only_after_upsert [OF ne d always_timeout_run]
  obtain os' where os': "upsert_log exhausted_world = upsert_log fresh_world @ map (Pair demo_batch) os'"
    "None \<notin> set os' \<longrightarrow> checkpoint_file exhausted_world = checkpoint_file fresh_world"
    by blast
  have os2: "os' = [Some ''Read timeout'', Some ''Read timeout'', Some ''Read timeout'']"
    using os'(1) by (auto simp: exhausted_world_def fresh_world_def map_eq_Cons_conv)
  have f2: "checkpoint_file exhausted_world = checkpoint_file fresh_world"
    using os'(2) os2 by simp
  show ?thesis
    using ne ws timeout_then_ok_run always_timeout_run os(1) os'(1) f1 f2
    unfolding os1 os2 by simp
qed


text \<open>
  Claim C3. With \<open>max_retries = 3\<close>, when the first two upsert calls raise retryable
  errors and the third returns, \<^verbatim>\<open>upsert_with_retry\<close> makes exactly these three calls,
  sleeps after each of the two failures, appends the ids of the batch once (the writes to
  the checkpoint file succeeding) and returns the size of the batch. For any
  \<open>max_retries\<close>, when every call raises a retryable error, it makes exactly
  \<open>max_retries\<close> calls (none when \<open>max_retries\<close> is not positive), leaves the checkpoint
  file as it is and returns 0. The batch is not empty and the delay is not negative.
\<close>

theorem retry_until_success_or_exhausted:
  "(vectors_batch \<noteq> [] \<and> 0 \<le> initial_delay \<and> writes_succeed e \<and>
    sink_outcome e (length (upsert_log w)) = Some m1 \<and> is_retryable m1 \<and>
    sink_outcome e (length (upsert_log w) + 1) = Some m2 \<and> is_retryable m2 \<and>
    sink_outcome e (length (upsert_log w) + 2) = None
    \<longrightarrow> upsert_with_retry e vectors_batch 3 initial_delay w =
          (w\<lparr>upsert_log := upsert_log w @
                 [(vectors_batch, Some m1), (vectors_batch, Some m2), (vectors_batch, None)],
             sleep_log := sleep_log w @ [actual_delay initial_delay 1, actual_delay initial_delay 2],
             checkpoint_file :=
               Some ((case checkpoint_file w of None \<Rightarrow> [] | Some content \<Rightarrow> content) @
                     concat (map (\<lambda>v. vid v @ [CHR 0x0A]) vectors_batch))\<rparr>,
           Inr (int (length vectors_batch))))
   \<and> (vectors_batch \<noteq> [] \<and> 0 \<le> initial_delay \<and>
      (\<forall>k<nat max_retries. \<exists>msg. sink_outcome e (length (upsert_log w) + k) = Some msg \<and> is_retryable msg)
      \<longrightarrow> upsert_with_retry e vectors_batch max_retries initial_delay w =
            (w\<lparr>upsert_log := upsert_log w @
                   map (\<lambda>k. (vectors_batch, sink_outcome e (length (upsert_log w) + k))) [0..<nat max_retries],
               sleep_log := sleep_log w @ map (actual_delay initial_delay) [1..<nat max_retries]\<rparr>,
             Inr 0))"
proof (intro conjI impI)
  assume h: "vectors_batch \<noteq> [] \<and> 0 \<le> initial_delay \<and> writes_succeed e \<and>
    sink_outcome e (length (upsert_log w)) = Some m1 \<and> is_retryable m1 \<and>
    sink_outcome e (length (upsert_log w) + 1) = Some m2 \<and> is_retryable m2 \<and>
    sink_outcome e (length (upsert_log w) + 2) = None"
  let ?w1 = "w\<lparr>upsert_log := upsert_log w @ [(vectors_batch, Some m1)],
                sleep_log := sleep_log w @ [actual_delay initial_delay (Suc 0)]\<rparr>"
  let ?w2 = "?w1\<lparr>upsert_log := upsert_log ?w1 @ [(vectors_batch, Some m2)],
                sleep_log := sleep_log ?w1 @ [actual_delay initial_delay (Suc (Suc 0))]\<rparr>"
  have s1: "retry_loop e vectors_batch 3 initial_delay 0 w = retry_loop e vectors_batch 3 initial_delay (Suc 0) ?w1"
    using h by (intro retry_loop_retry) auto
  have s2: "retry_loop e vectors_batch 3 initial_delay (Suc 0) ?w1 = retry_loop e vectors_batch 3 initial_delay (Suc (Suc 0)) ?w2"
    using h by (intro retry_loop_retry) auto
  have s3: "retry_loop e vectors_batch 3 initial_delay (Suc (Suc 0)) ?w2 =
      (?w2\<lparr>upsert_log := upsert_log ?w2 @ [(vectors_batch, None)],
           checkpoint_file := appended (map vid vectors_batch) (checkpoint_file ?w2)\<rparr>,
       Inr (int (length vectors_batch)))"
    using h by (intro retry_loop_success) auto
  show "upsert_with_retry e vectors_batch 3 initial_delay w =
          (w\<lparr>upsert_log := upsert_log w @
                 [(vectors_batch, Some m1), (vectors_batch, Some m2), (vectors_batch, None)],
             sleep_log := sleep_log w @ [actual_delay initial_delay 1, actual_delay initial_delay 2],
             checkpoint_file :=
               Some ((case checkpoint_file w of None \<Rightarrow> [] | Some content \<Rightarrow> content) @
                     concat (map (\<lambda>v. vid v @ [CHR 0x0A]) vectors_batch))\<rparr>,
           Inr (int (length vectors_batch)))"
    using h unfolding upsert_with_retry_def s1 s2 s3 by (simp add: numeral_2_eq_2 appended_def o_def)
next
  assume h: "vectors_batch \<noteq> [] \<and> 0 \<le> initial_delay \<and>
      (\<forall>k<nat max_retries. \<exists>msg. sink_outcome e (length (upsert_log w) + k) = Some msg \<and> is_retryable msg)"
  have "nat max_retries - 0 = nat max_retries" by simp
  from retry_loop_all_retryable [OF this, of initial_delay e w vectors_batch] h
  show "upsert_with_retry e vectors_batch max_retries initial_delay w =
            (w\<lparr>upsert_log := upsert_log w @
                   map (\<lambda>k. (vectors_batch, sink_outcome e (length (upsert_log w) + k))) [0..<nat max_retries],
               sleep_log := sleep_log w @ map (actual_delay initial_delay) [1..<nat max_retries]\<rparr>,
             Inr 0)"
    by (simp add: upsert_with_retry_def)
qed

text \<open>
  Two runs of the theorem with the defaults: two retryable failures and a success; three
  retryable failures.
\<close>

theorem retry_until_success_or_exhausted_witness:
  "upsert_with_retry two_timeouts_then_ok demo_batch 3 5 fresh_world =
     (\<lparr>checkpoint_file = Some (''a'' @ [newline] @ ''b'' @ [newline]),
       upsert_log = [(demo_batch, Some ''Read timeout''), (demo_batch, Some ''Connection reset by peer''),
                     (demo_batch, None)],
       sleep_log = [10, 20], embed_log = []\<rparr>, Inr 2)
   \<and> upsert_with_retry always_timeout demo_batch 3 5 fresh_world =
     (\<lparr>checkpoint_file = None,
       upsert_log = [(demo_batch, Some ''Read timeout''), (demo_batch, Some ''Read timeout''),
                     (demo_batch, Some ''Read timeout'')],
       sleep_log = [10, 20], embed_log = []\<rparr>, Inr 0)"
proof -
  have r1: "is_retryable ''Read timeout''" by code_simp
  have r2: "is_retryable ''Connection reset by peer''" by code_simp
  have ne: "demo_batch \<noteq> []" by (simp add: demo_batch_def)
  have a: "demo_batch \<noteq> [] \<and> (0::int) \<le> 5 \<and> writes_succeed two_timeouts_then_ok \<and>
    sink_outcome two_timeouts_then_ok (length (upsert_log fresh_world)) = Some ''Read timeout'' \<and>
    is_retryable ''Read timeout'' \<and>
    sink_outcome two_timeouts_then_ok (length (upsert_log fresh_world) + 1) = Some ''Connection reset by peer'' \<and>
    is_retryable ''Connection reset by peer'' \<and>
    sink_outcome two_timeouts_then_ok (length (upsert_log fresh_world) + 2) = None"
    using r1 r2 ne
    by (simp add: two_timeouts_then_ok_def writes_succeed_scripted) (simp add: scripted_env_def fresh_world_def)
  have b: "demo_batch \<noteq> [] \<and> (0::int) \<le> 5 \<and>
      (\<forall>k<nat 3. \<exists>msg. sink_outcome always_timeout (length (upsert_log fresh_world) + k) = Some msg \<and> is_retryable msg)"
    using r1 ne by (auto simp: always_timeout_def scripted_env_def fresh_world_def nth_Cons split: nat.splits)
  have up: "[0..<3] = [0, 1, 2]" "[Suc 0..<3] = [Suc 0, 2]"
    by code_simp+
  from retry_until_success_or_exhausted [where vectors_batch = demo_batch and initial_delay = 5
        and e = two_timeouts_then_ok and w = fresh_world and ?m1.0 = "''Read timeout''"
        and ?m2.0 = "''Connection reset by peer''", THEN conjunct1, rule_format, OF a]
    retry_until_success_or_exhausted [where vectors_batch = demo_batch and initial_delay = 5
        and e = always_timeout and w = fresh_world and max_retries = 3, THEN conjunct2, rule_format, OF b]
  show ?thesis
    by (simp add: up fresh_world_def actual_delay_def newline_def demo_batch_def demo_vec_def
        always_timeout_def scripted_env_def)
qed

text \<open>
  Claim C4. One call of \<^verbatim>\<open>upsert_with_retry\<close> that makes n upsert calls (at most
  \<open>max_retries\<close>) has slept before each of them but the first, that is, before each retry,
  and the sleep before retry number \<open>attempt\<close> lasted \<open>min (initial_delay * 2 ^ attempt) 60\<close>
  seconds: its sleeps are, in order, those of the retries 1 to n - 1, and they never
  decrease. Step by step: when a call fails with a retryable error and \<open>retries\<close> is below
  \<open>max_retries - 1\<close>, the loop sleeps for the length that the formula gives for
  \<open>retries + 1\<close> and goes on with that number of retries. For a delay that is not
  negative the formula is non-decreasing in the attempt number, and once it has reached
  the cap of 60 it stays there.
\<close>

theorem backoff_delays:
  "(upsert_with_retry e vectors_batch max_retries initial_delay w = (w', res) \<longrightarrow>
      (\<exists>n. length (upsert_log w') = length (upsert_log w) + n \<and> int n \<le> max 0 max_retries \<and>
           sleep_log w' =
             sleep_log w @ map (\<lambda>attempt. min (initial_delay * 2 ^ attempt) 60) [1..<n] \<and>
           sorted (map (\<lambda>attempt. min (initial_delay * 2 ^ attempt) 60) [1..<n])))
   \<and> (0 \<le> initial_delay \<and> int retries < max_retries - 1 \<and>
      sink_outcome e (length (upsert_log w)) = Some msg \<and> is_retryable msg \<longrightarrow>
        retry_loop e vectors_batch max_retries initial_delay retries w =
          retry_loop e vectors_batch max_retries initial_delay (retries + 1)
            (w\<lparr>upsert_log := upsert_log w @ [(vectors_batch, Some msg)],
               sleep_log := sleep_log w @ [min (initial_delay * 2 ^ (retries + 1)) 60]\<rparr>))
   \<and> actual_delay initial_delay attempt = min (initial_delay * 2 ^ attempt) 60
   \<and> (0 \<le> initial_delay \<and> j \<le> k \<longrightarrow> actual_delay initial_delay j \<le> actual_delay initial_delay k)
   \<and> (j \<le> k \<and> actual_delay initial_delay j = 60 \<longrightarrow> actual_delay initial_delay k = 60)"
proof (intro conjI impI)
  assume run: "upsert_with_retry e vectors_batch max_retries initial_delay w = (w', res)"
  have fn: "(\<lambda>attempt. min (initial_delay * 2 ^ attempt) 60) = actual_delay initial_delay"
    by (rule ext) (simp add: actual_delay_def)
  show "\<exists>n. length (upsert_log w') = length (upsert_log w) + n \<and> int n \<le> max 0 max_retries \<and>
           sleep_log w' =
             sleep_log w @ map (\<lambda>attempt. min (initial_delay * 2 ^ attempt) 60) [1..<n] \<and>
           sorted (map (\<lambda>attempt. min (initial_delay * 2 ^ attempt) 60) [1..<n])"
  proof (cases "vectors_batch = []")
    case True
    with run have "w' = w" by (simp add: upsert_with_retry_def)
    then show ?thesis by (intro exI [of _ 0]) simp
  next
    case False
    with run have "retry_loop e vectors_batch max_retries initial_delay 0 w = (w', res)"
      by (simp add: upsert_with_retry_def)
    from sleeps_match_calls [OF this] obtain n where
      n: "length (upsert_log w') = length (upsert_log w) + n" "int n \<le> max 0 (max_retries - int 0)"
        "sleep_log w' = sleep_log w @ map (actual_delay initial_delay) [Suc 0..<0 + n]"
        "n \<le> 1 \<or> 0 \<le> initial_delay"
      by blast
    have "sorted (map (actual_delay initial_delay) [1..<n])"
    proof (cases "n \<le> 1")
      case True then show ?thesis by simp
    next
      case False
      with n(4) have "0 \<le> initial_delay" by simp
      then show ?thesis by (rule sorted_delays)
    qed
    with n show ?thesis unfolding fn by (intro exI [of _ n]) simp
  qed
next
  assume h: "0 \<le> initial_delay \<and> int retries < max_retries - 1 \<and>
      sink_outcome e (length (upsert_log w)) = Some msg \<and> is_retryable msg"
  then have "retry_loop e vectors_batch max_retries initial_delay retries w =
     retry_loop e vectors_batch max_retries initial_delay (Suc retries)
       (w\<lparr>upsert_log := upsert_log w @ [(vectors_batch, Some msg)],
          sleep_log := sleep_log w @ [actual_delay initial_delay (Suc retries)]\<rparr>)"
    by (intro retry_loop_retry) simp_all
  then show "retry_loop e vectors_batch max_retries initial_delay retries w =
          retry_loop e vectors_batch max_retries initial_delay (retries + 1)
            (w\<lparr>upsert_log := upsert_log w @ [(vectors_batch, Some msg)],
               sleep_log := sleep_log w @ [min (initial_delay * 2 ^ (retries + 1)) 60]\<rparr>)"
    by (simp add: actual_delay_def)
next
  show "actual_delay initial_delay attempt = min (initial_delay * 2 ^ attempt) 60"
    by (simp add: actual_delay_def)
next
  assume "0 \<le> initial_delay \<and> j \<le> k"
  then show "actual_delay initial_delay j \<le> actual_delay initial_delay k"
    by (simp add: actual_delay_mono)
next
  assume "j \<le> k \<and> actual_delay initial_delay j = 60"
  then show "actual_delay initial_delay k = 60"
    using actual_delay_capped by blast
qed

text \<open>
  A run of the theorem with the defaults and three retryable failures: three upsert calls,
  a sleep of 10 seconds before the second and one of 20 seconds before the third; the first
  step of that run; the formula reaches the cap at the fourth retry and stays there.
\<close>

theorem backoff_delays_witness:
  "upsert_with_retry always_timeout demo_batch 3 5 fresh_world = (exhausted_world, Inr 0)
   \<and> (\<exists>n. length (upsert_log exhausted_world) = length (upsert_log fresh_world) + n \<and>
           int n \<le> max 0 3 \<and>
           sleep_log exhausted_world =
             sleep_log fresh_world @ map (\<lambda>attempt. min (5 * 2 ^ attempt) 60) [1..<n] \<and>
           sorted (map (\<lambda>attempt. min ((5::int) * 2 ^ attempt) 60) [1..<n]))
   \<and> length (upsert_log exhausted_world) = 3 \<and> upsert_log fresh_world = []
   \<and> sleep_log exhausted_world = [10, 20] \<and> sleep_log fresh_world = []
   \<and> retry_loop always_timeout demo_batch 3 5 0 fresh_world =
       retry_loop always_timeout demo_batch 3 5 1
         (fresh_world\<lparr>upsert_log := [(demo_batch, Some ''Read timeout'')], sleep_log := [10]\<rparr>)
   \<and> actual_delay 5 1 = 10 \<and> actual_delay 5 2 = 20
   \<and> actual_delay 5 3 \<le> actual_delay 5 4
   \<and> actual_delay 5 4 = 60 \<and> actual_delay 5 5 = 60"
proof -
  note t = backoff_delays [where e = always_timeout and vectors_batch = demo_batch and max_retries = 3
      and initial_delay = 5 and w = fresh_world]
  have a: "\<exists>n. length (upsert_log exhausted_world) = length (upsert_log fresh_world) + n \<and>
           int n \<le> max 0 3 \<and>
           sleep_log exhausted_world =
             sleep_log fresh_world @ map (\<lambda>attempt. min (5 * 2 ^ attempt) 60) [1..<n] \<and>
           sorted (map (\<lambda>attempt. min ((5::int) * 2 ^ attempt) 60) [1..<n])"
    using t [where w' = exhausted_world and res = "Inr 0", THEN conjunct1, rule_format, OF always_timeout_run] .
  have r: "is_retryable ''Read timeout''" by code_simp
  have h: "(0::int) \<le> 5 \<and> int 0 < 3 - 1 \<and>
      sink_outcome always_timeout (length (upsert_log fresh_world)) = Some ''Read timeout'' \<and>
      is_retryable ''Read timeout''"
    using r by (simp add: always_timeout_def scripted_env_def fresh_world_def)
  have s: "retry_loop always_timeout demo_batch 3 5 0 fresh_world =
       retry_loop always_timeout demo_batch 3 5 1
         (fresh_world\<lparr>upsert_log := [(demo_batch, Some ''Read timeout'')], sleep_log := [10]\<rparr>)"
    using t [where retries = 0 and msg = "''Read timeout''", THEN conjunct2, THEN conjunct1, rule_format, OF h]
    by (simp add: fresh_world_def)
  have b: "actual_delay 5 3 \<le> actual_delay 5 4"
    using t [where j = 3 and k = 4, THEN conjunct2, THEN conjunct2, THEN conjunct2, THEN conjunct1] by simp
  have c4: "actual_delay 5 4 = 60" by (simp add: actual_delay_def)
  have c: "actual_delay 5 5 = 60"
    using t [where j = 4 and k = 5, THEN conjunct2, THEN conjunct2, THEN conjunct2, THEN conjunct2] c4 by simp
  show ?thesis
    apply (intro conjI)
    apply (rule always_timeout_run)
    apply (rule a)
    apply (simp_all add: exhausted_world_def fresh_world_def actual_delay_def s [unfolded fresh_world_def] b c c4)
    done
qed


subsection \<open>Metadata coercion and loading\<close>

lemma coerce_missing:
  "isna a \<Longrightarrow> coerce e col_name (Scalar a) =
     Inr (if column_dtype e col_name \<in> {Int64, Float64} then MInt 0
          else if column_dtype e col_name = Bool then MBool False else MStr [])"
  by (simp add: coerce_def issubdtype_number_def issubdtype_bool_def)

lemma coerce_scalar:
  "coerce e col_name (Scalar (PBool b)) = Inr (MBool b)"
  "coerce e col_name (Scalar (PInt i)) = Inr (MInt i)"
  "coerce e col_name (Scalar (PFloat r)) = Inr (MFloat r)"
  "coerce e col_name (Scalar (PStr s)) = Inr (MStr s)"
  "coerce e col_name (Scalar (POther s)) = Inr (MStr s)"
  by (simp_all add: coerce_def)

lemma coerce_scalar_total: "\<exists>v. coerce e col_name (Scalar a) = Inr v"
  by (cases a) (simp_all add: coerce_def Let_def)

lemma coerce_singleton_list:
  "\<not> isna a \<Longrightarrow> coerce e col_name (PList [a]) = Inr (MList [py_str a])"
  by (simp add: coerce_def)

lemma metadata_loop_scalars:
  "\<forall>(c, v)\<in>set items. \<exists>a. v = Scalar a \<Longrightarrow> \<exists>p. metadata_loop e items payload = Inr p"
proof (induction items arbitrary: payload)
  case Nil
  then show ?case by simp
next
  case (Cons item items)
  obtain c v where item: "item = (c, v)" by (cases item)
  with Cons.prems obtain a where a: "v = Scalar a" by auto
  obtain m where m: "coerce e c (Scalar a) = Inr m" using coerce_scalar_total by blast
  from Cons.prems have "\<forall>(c, v)\<in>set items. \<exists>a. v = Scalar a" by simp
  from Cons.IH [OF this] show ?case by (simp add: item a m)
qed

lemma metadata_loop_row: "\<exists>p. metadata_loop e (row_items r) [] = Inr p"
proof -
  have "\<forall>(c, v)\<in>set (row_items r). \<exists>a. v = Scalar a"
    by (auto simp: row_items_def)
  then show ?thesis by (rule metadata_loop_scalars)
qed



lemma load_data_drops_missing_text: "r \<in> set (load_data excel) \<Longrightarrow> \<not> isna (post_text r)"
  by (simp add: load_data_def dropna_def)

lemma load_data_keeps_missing_id:
  "\<not> isna (raw_text r) \<Longrightarrow> r \<in> set excel \<Longrightarrow>
   \<lparr>post_id = py_str (raw_id r), post_text = raw_text r, others = raw_others r\<rparr> \<in> set (load_data excel)"
  by (force simp: load_data_def dropna_def astype_str_def)

text \<open>
  Claim C7 says that a row with a missing identifier is dropped. The identifier column is
  made a string column (line 107) before the rows with missing values are dropped (line
  108), so a missing identifier has become the string \<^verbatim>\<open>nan\<close> by then and the row stays:
  it is embedded, upserted under the id \<^verbatim>\<open>nan\<close> and checkpointed. Rows with a missing
  text are dropped, as the lemma above shows.
\<close>

theorem null_id_row_is_delivered:
  "load_data [null_id_row] = [\<lparr>post_id = ''nan'', post_text = PStr ''hello'', others = []\<rparr>] \<and>
   run one_batch_env [null_id_row] fresh_world =
     (\<lparr>pworld = \<lparr>checkpoint_file = Some (''nan'' @ [newline]),
                 upsert_log = [([\<lparr>vid = ''nan'', vvalues = [''hello''],
                                  vmetadata = [(''post_id'', MStr ''nan''), (''post_text'', MStr ''hello'')]\<rparr>], None)],
                 sleep_log = [], embed_log = [[PStr ''hello'']]\<rparr>,
       vectors_to_upsert_buffer = [], processed_count_in_run = 1\<rparr>, None)"
  by code_simp


subsection \<open>The main loop\<close>

declare prepare_batches.simps [simp del]

lemma upsert_default_returns:
  "snd (upsert_with_retry e b 3 5 w) = Inr 0 \<or> snd (upsert_with_retry e b 3 5 w) = Inr (int (length b))"
proof (cases "b = []")
  case True then show ?thesis by (simp add: upsert_with_retry_def)
next
  case False
  obtain w' res where r: "retry_loop e b 3 5 0 w = (w', res)" by (cases "retry_loop e b 3 5 0 w")
  from retry_loop_returns [OF r] have "res = Inr 0 \<or> res = Inr (int (length b))" by simp
  with r False show ?thesis by (auto simp: upsert_with_retry_def)
qed

lemma flush_if_full_no_exception: "snd (flush_if_full e s) = None"
proof -
  obtain n where "snd (upsert_with_retry e (vectors_to_upsert_buffer s) 3 5 (pworld s)) = Inr n"
    using upsert_default_returns [of e "vectors_to_upsert_buffer s" "pworld s"] by blast
  then show ?thesis
    by (cases "upsert_with_retry e (vectors_to_upsert_buffer s) 3 5 (pworld s)")
       (simp add: flush_if_full_def)
qed

lemma flush_if_full_below:
  "length (vectors_to_upsert_buffer s) < PINECONE_UPSERT_BATCH_SIZE \<Longrightarrow> flush_if_full e s = (s, None)"
  by (simp add: flush_if_full_def)

lemma items_loop_feed:
  "item_idx + length embs \<le> length batch \<Longrightarrow>
   items_loop e batch item_idx embs s =
     (feed e (map (\<lambda>(r, v). row_vec e r v) (zip (drop item_idx batch) embs)) s, None)"
proof (induction embs arbitrary: item_idx s)
  case Nil
  then show ?case by (simp add: feed_def)
next
  case (Cons v embs)
  from Cons.prems have lt: "item_idx < length batch" by simp
  obtain p where p: "metadata_loop e (row_items (batch ! item_idx)) [] = Inr p"
    using metadata_loop_row by blast
  let ?s1 = "s\<lparr>vectors_to_upsert_buffer := vectors_to_upsert_buffer s @ [row_vec e (batch ! item_idx) v]\<rparr>"
  have rv: "row_vec e (batch ! item_idx) v = \<lparr>vid = post_id (batch ! item_idx), vvalues = v, vmetadata = p\<rparr>"
    by (simp add: row_vec_def p)
  obtain s2 x where f: "flush_if_full e ?s1 = (s2, x)" by (cases "flush_if_full e ?s1")
  with flush_if_full_no_exception [of e ?s1] have x: "x = None" by simp
  have s2: "s2 = append_vec e (row_vec e (batch ! item_idx) v) s"
    using f by (simp add: append_vec_def)
  have dr: "drop item_idx batch = batch ! item_idx # drop (Suc item_idx) batch"
    using lt by (simp add: Cons_nth_drop_Suc)
  have "items_loop e batch item_idx (v # embs) s = items_loop e batch (Suc item_idx) embs s2"
    using lt p f x rv by (simp add: Let_def)
  also have "\<dots> = (feed e (map (\<lambda>(r, v). row_vec e r v) (zip (drop (Suc item_idx) batch) embs)) s2, None)"
    using Cons.prems by (intro Cons.IH) auto
  finally show ?case
    by (simp add: dr feed_def s2)
qed

lemma process_future_feed:
  assumes "i < length all_batches" and "all_batches ! i \<noteq> []" and "provider_ok e all_batches i"
  shows "process_future e all_batches i s = feed e (batch_vecs e all_batches i) s"
proof -
  from assms(3) obtain vs where vs: "provider e i (map post_text (all_batches ! i)) = Inr vs"
    "length vs = length (all_batches ! i)"
    by (auto simp: provider_ok_def split: sum.splits)
  with assms(2) have em: "embed e i (map post_text (all_batches ! i)) = Inr vs"
    by (simp add: embed_def)
  have "items_loop e (all_batches ! i) 0 vs s =
     (feed e (map (\<lambda>(r, v). row_vec e r v) (zip (drop 0 (all_batches ! i)) vs)) s, None)"
    using vs(2) by (intro items_loop_feed) auto
  then show ?thesis
    using assms(1) em by (simp add: process_future_def batch_vecs_def)
qed

lemma feed_append: "feed e (xs @ ys) s = feed e ys (feed e xs s)"
  by (simp add: feed_def)

lemma fold_process_future_feed:
  assumes "\<forall>i\<in>set order. i < length all_batches \<and> all_batches ! i \<noteq> [] \<and> provider_ok e all_batches i"
  shows "fold (process_future e all_batches) order s = feed e (concat (map (batch_vecs e all_batches) order)) s"
  using assms
proof (induction order arbitrary: s)
  case Nil
  then show ?case by (simp add: feed_def)
next
  case (Cons i order)
  then show ?case
    by (simp add: process_future_feed feed_append)
qed

lemma feed_below:
  "length (vectors_to_upsert_buffer s) + length vs < PINECONE_UPSERT_BATCH_SIZE \<Longrightarrow>
   feed e vs s = s\<lparr>vectors_to_upsert_buffer := vectors_to_upsert_buffer s @ vs\<rparr>"
proof (induction vs arbitrary: s)
  case Nil
  then show ?case by (simp add: feed_def)
next
  case (Cons v vs)
  let ?s1 = "s\<lparr>vectors_to_upsert_buffer := vectors_to_upsert_buffer s @ [v]\<rparr>"
  have a: "append_vec e v s = ?s1"
    using Cons.prems by (simp add: append_vec_def flush_if_full_below)
  have "feed e (v # vs) s = feed e vs ?s1"
    by (simp add: feed_def a)
  also have "\<dots> = ?s1\<lparr>vectors_to_upsert_buffer := vectors_to_upsert_buffer ?s1 @ vs\<rparr>"
    using Cons.prems by (intro Cons.IH) simp
  finally show ?case by simp
qed

lemma upsert_one_call:
  assumes "b \<noteq> []" and "one_call_outcome (sink_outcome e (length (upsert_log w)))"
    and "writes_succeed e"
  shows "upsert_with_retry e b 3 5 w =
     (w\<lparr>upsert_log := upsert_log w @ [(b, sink_outcome e (length (upsert_log w)))],
        checkpoint_file :=
          (if sink_outcome e (length (upsert_log w)) = None
           then appended (map vid b) (checkpoint_file w) else checkpoint_file w)\<rparr>,
      Inr (if sink_outcome e (length (upsert_log w)) = None then int (length b) else 0))"
proof (cases "sink_outcome e (length (upsert_log w))")
  case None
  with assms(1,3) show ?thesis
    by (simp add: upsert_with_retry_def retry_loop_success)
next
  case (Some msg)
  with assms(2) have "\<not> is_retryable msg" by (simp add: one_call_outcome_def)
  with Some assms(1) show ?thesis
    by (simp add: upsert_with_retry_def retry_loop_non_retryable)
qed

lemma flush_full_one_call:
  assumes "length (vectors_to_upsert_buffer s) = PINECONE_UPSERT_BATCH_SIZE"
    and "one_call_outcome (sink_outcome e (length (upsert_log (pworld s))))"
    and "writes_succeed e"
  shows "flush_if_full e s =
     (delivered (vectors_to_upsert_buffer s) (sink_outcome e (length (upsert_log (pworld s)))) s, None)"
proof -
  from assms(1) have ne: "vectors_to_upsert_buffer s \<noteq> []"
    by (auto simp: PINECONE_UPSERT_BATCH_SIZE_def)
  show ?thesis
    using assms(1) ne
    by (cases "sink_outcome e (length (upsert_log (pworld s)))")
       (simp_all add: flush_if_full_def upsert_one_call [OF ne assms(2,3)] delivered_def)
qed

lemma feed_fill:
  assumes "length (vectors_to_upsert_buffer s) + length vs = PINECONE_UPSERT_BATCH_SIZE" and "vs \<noteq> []"
    and "one_call_outcome (sink_outcome e (length (upsert_log (pworld s))))"
    and "writes_succeed e"
  shows "feed e vs s =
     delivered (vectors_to_upsert_buffer s @ vs) (sink_outcome e (length (upsert_log (pworld s)))) s"
proof -
  from assms(2) obtain ys y where vs: "vs = ys @ [y]" by (metis rev_exhaust)
  let ?s1 = "s\<lparr>vectors_to_upsert_buffer := vectors_to_upsert_buffer s @ ys\<rparr>"
  have a: "feed e ys s = ?s1"
    using assms(1) vs by (intro feed_below) simp
  let ?s2 = "?s1\<lparr>vectors_to_upsert_buffer := vectors_to_upsert_buffer ?s1 @ [y]\<rparr>"
  have "flush_if_full e ?s2 =
     (delivered (vectors_to_upsert_buffer ?s2) (sink_outcome e (length (upsert_log (pworld ?s2)))) ?s2, None)"
    using assms(1,3,4) vs by (intro flush_full_one_call) simp_all
  then have "append_vec e y ?s1 = delivered (vectors_to_upsert_buffer s @ vs) (sink_outcome e (length (upsert_log (pworld s)))) s"
    by (simp add: append_vec_def vs delivered_def)
  then show ?thesis
    by (simp add: vs feed_append a) (simp add: feed_def)
qed

lemma final_flush_one_call:
  assumes "vectors_to_upsert_buffer s \<noteq> []"
    and "one_call_outcome (sink_outcome e (length (upsert_log (pworld s))))"
    and "writes_succeed e"
  shows "final_flush e s =
     (delivered (vectors_to_upsert_buffer s) (sink_outcome e (length (upsert_log (pworld s)))) s, None)"
  using assms(1)
  by (cases "sink_outcome e (length (upsert_log (pworld s)))")
     (simp_all add: final_flush_def upsert_one_call [OF assms] delivered_def)

lemma prepare_batches_250:
  assumes "length df = 250"
  shows "prepare_batches 0 df = [take 100 df, take 100 (drop 100 df), drop 200 df]"
proof -
  have a: "prepare_batches 300 df = []"
    using assms by (simp add: prepare_batches.simps [of 300 df])
  have b: "prepare_batches 200 df = [drop 200 df]"
    using assms a by (simp add: prepare_batches.simps [of 200 df] OPENAI_EMBEDDING_BATCH_SIZE_def)
  have c: "prepare_batches 100 df = [take 100 (drop 100 df), drop 200 df]"
    using assms b by (simp add: prepare_batches.simps [of 100 df] OPENAI_EMBEDDING_BATCH_SIZE_def)
  have "df \<noteq> []" using assms by auto
  then show ?thesis
    using assms c by (simp add: prepare_batches.simps [of 0 df] OPENAI_EMBEDDING_BATCH_SIZE_def)
qed

lemma length_batch_vecs:
  "provider_ok e all_batches i \<Longrightarrow> all_batches ! i \<noteq> [] \<Longrightarrow>
   length (batch_vecs e all_batches i) = length (all_batches ! i)"
  by (auto simp: provider_ok_def batch_vecs_def embed_def split: sum.splits)

lemma vid_batch_vecs:
  "provider_ok e all_batches i \<Longrightarrow> all_batches ! i \<noteq> [] \<Longrightarrow>
   map vid (batch_vecs e all_batches i) = map post_id (all_batches ! i)"
  by (auto simp: provider_ok_def batch_vecs_def embed_def row_vec_def split: sum.splits
      intro!: nth_equalityI)

lemma sum_list_three:
  assumes "distinct order" and "set order = {0, 1, 2::nat}"
  shows "sum_list (map f order) = f 0 + f 1 + (f 2 :: nat)"
proof -
  have "sum_list (map f order) = sum f (set order)"
    using assms(1) by (rule sum_list_distinct_conv_sum_set)
  also have "\<dots> = f 0 + f 1 + f 2" by (simp add: assms(2))
  finally show ?thesis .
qed

lemma scenario_250:
  fixes e :: "'v env"
  assumes len: "length df = 250"
    and order: "distinct (completion_order e)" "set (completion_order e) = {0, 1, 2}"
    and prov: "\<forall>i<3. provider_ok e (prepare_batches 0 df) i"
    and writes: "writes_succeed e"
    and sink: "\<forall>k<3. one_call_outcome (sink_outcome e (length (upsert_log w) + k))"
    and vs: "vs = concat (map (batch_vecs e (prepare_batches 0 df)) (completion_order e))"
    and calls: "calls = [(take 100 vs, sink_outcome e (length (upsert_log w))),
                         (take 100 (drop 100 vs), sink_outcome e (length (upsert_log w) + 1)),
                         (drop 200 vs, sink_outcome e (length (upsert_log w) + 2))]"
  shows "embed_and_upsert e df w =
     (\<lparr>pworld = w\<lparr>embed_log := embed_log w @
                      [map post_text (take 100 df), map post_text (take 100 (drop 100 df)),
                       map post_text (drop 200 df)],
                  upsert_log := upsert_log w @ calls,
                  checkpoint_file := checkpoint_after calls (checkpoint_file w)\<rparr>,
       vectors_to_upsert_buffer = [],
       processed_count_in_run = count_after calls\<rparr>, None)"
    and "length vs = 250"
    and "map vid vs = map post_id (concat (map ((!) (prepare_batches 0 df)) (completion_order e)))"
proof -
  let ?bs = "prepare_batches 0 df"
  have bs: "?bs = [take 100 df, take 100 (drop 100 df), drop 200 df]"
    using len by (rule prepare_batches_250)
  have lens: "length (?bs ! 0) = 100" "length (?bs ! 1) = 100" "length (?bs ! 2) = 50"
    using len by (simp_all add: bs)
  have nonempty: "\<forall>i<3. ?bs ! i \<noteq> []"
  proof (intro allI impI)
    fix i :: nat assume "i < 3"
    then have "i = 0 \<or> i = 1 \<or> i = 2" by auto
    then show "?bs ! i \<noteq> []" using lens by auto
  qed
  have in_df: "\<forall>i<3. set (?bs ! i) \<subseteq> set df"
  proof (intro allI impI)
    fix i :: nat assume "i < 3"
    then have "i = 0 \<or> i = 1 \<or> i = 2" by auto
    then show "set (?bs ! i) \<subseteq> set df"
      by (auto simp: bs dest!: in_set_takeD dest: in_set_dropD)
  qed
  have ord: "\<forall>i\<in>set (completion_order e). i < 3" using order(2) by auto
  have hyp: "\<forall>i\<in>set (completion_order e). i < length ?bs \<and> ?bs ! i \<noteq> [] \<and> provider_ok e ?bs i"
  proof
    fix i assume "i \<in> set (completion_order e)"
    then have i: "i < 3" using ord by simp
    moreover have "length ?bs = 3" by (simp add: bs)
    ultimately show "i < length ?bs \<and> ?bs ! i \<noteq> [] \<and> provider_ok e ?bs i"
      using nonempty prov by simp
  qed
  have lenvs: "length (batch_vecs e ?bs i) = length (?bs ! i)" if "i < 3" for i
    using that prov nonempty by (simp add: length_batch_vecs)
  have "length vs = sum_list (map (\<lambda>i. length (batch_vecs e ?bs i)) (completion_order e))"
    by (simp add: vs length_concat o_def)
  also have "\<dots> = length (batch_vecs e ?bs 0) + length (batch_vecs e ?bs 1) + length (batch_vecs e ?bs 2)"
    using order by (rule sum_list_three)
  also have "\<dots> = 250" using lens by (simp add: lenvs)
  finally show lvs: "length vs = 250" .
  have "map vid vs = concat (map (\<lambda>i. map vid (batch_vecs e ?bs i)) (completion_order e))"
    by (simp add: vs map_concat o_def)
  also have "\<dots> = concat (map (\<lambda>i. map post_id (?bs ! i)) (completion_order e))"
    using hyp by (intro arg_cong [where f = concat] map_cong refl vid_batch_vecs) auto
  also have "\<dots> = map post_id (concat (map ((!) ?bs) (completion_order e)))"
    by (simp add: map_concat o_def)
  finally show "map vid vs = map post_id (concat (map ((!) ?bs) (completion_order e)))" .
  let ?w1 = "w\<lparr>embed_log := embed_log w @
                      [map post_text (take 100 df), map post_text (take 100 (drop 100 df)),
                       map post_text (drop 200 df)]\<rparr>"
  let ?s0 = "\<lparr>pworld = ?w1, vectors_to_upsert_buffer = [], processed_count_in_run = 0\<rparr>"
  let ?o0 = "sink_outcome e (length (upsert_log w))"
  let ?o1 = "sink_outcome e (length (upsert_log w) + 1)"
  let ?o2 = "sink_outcome e (length (upsert_log w) + 2)"
  have o: "one_call_outcome ?o0" "one_call_outcome ?o1" "one_call_outcome ?o2"
    using sink [rule_format, of 0] sink [rule_format, of 1] sink [rule_format, of 2] by simp_all
  have split: "vs = take 100 vs @ take 100 (drop 100 vs) @ drop 200 vs"
    by (metis append_take_drop_id drop_drop numeral_Bit0)
  let ?s1 = "delivered (take 100 vs) ?o0 ?s0"
  have f1: "feed e (take 100 vs) ?s0 = ?s1"
  proof -
    have "feed e (take 100 vs) ?s0 =
      delivered (vectors_to_upsert_buffer ?s0 @ take 100 vs) (sink_outcome e (length (upsert_log (pworld ?s0)))) ?s0"
      using lvs o(1) writes by (intro feed_fill) (auto simp: PINECONE_UPSERT_BATCH_SIZE_def)
    then show ?thesis by simp
  qed
  let ?s2 = "delivered (take 100 (drop 100 vs)) ?o1 ?s1"
  have f2: "feed e (take 100 (drop 100 vs)) ?s1 = ?s2"
  proof -
    have "feed e (take 100 (drop 100 vs)) ?s1 =
      delivered (vectors_to_upsert_buffer ?s1 @ take 100 (drop 100 vs))
        (sink_outcome e (length (upsert_log (pworld ?s1)))) ?s1"
      using lvs o(2) writes by (intro feed_fill) (auto simp: PINECONE_UPSERT_BATCH_SIZE_def delivered_def)
    then show ?thesis by (simp add: delivered_def)
  qed
  let ?s3 = "?s2\<lparr>vectors_to_upsert_buffer := drop 200 vs\<rparr>"
  have f3: "feed e (drop 200 vs) ?s2 = ?s3"
  proof -
    have "feed e (drop 200 vs) ?s2 = ?s2\<lparr>vectors_to_upsert_buffer := vectors_to_upsert_buffer ?s2 @ drop 200 vs\<rparr>"
      using lvs by (intro feed_below) (simp add: PINECONE_UPSERT_BATCH_SIZE_def delivered_def)
    then show ?thesis by (simp add: delivered_def)
  qed
  have fin: "final_flush e ?s3 = (delivered (drop 200 vs) ?o2 ?s3, None)"
  proof -
    have "final_flush e ?s3 =
      (delivered (vectors_to_upsert_buffer ?s3) (sink_outcome e (length (upsert_log (pworld ?s3)))) ?s3, None)"
      using lvs o(3) writes by (intro final_flush_one_call) (auto simp: delivered_def)
    then show ?thesis by (simp add: delivered_def)
  qed
  have "fold (process_future e ?bs) (completion_order e) ?s0 = feed e vs ?s0"
    unfolding vs using hyp by (rule fold_process_future_feed)
  also have "\<dots> = feed e (drop 200 vs) (feed e (take 100 (drop 100 vs)) (feed e (take 100 vs) ?s0))"
    by (subst split) (simp only: feed_append)
  also have "\<dots> = ?s3" by (simp only: f1 f2 f3)
  finally have main: "fold (process_future e ?bs) (completion_order e) ?s0 = ?s3" .
  have "take 100 df \<noteq> []" "take 100 (drop 100 df) \<noteq> []" "drop 200 df \<noteq> []"
    using len by auto
  then have texts: "filter (\<lambda>t. t \<noteq> []) (map (map post_text) ?bs) =
      [map post_text (take 100 df), map post_text (take 100 (drop 100 df)), map post_text (drop 200 df)]"
    by (simp add: bs)
  have w1: "embed_and_upsert e df w = final_flush e (fold (process_future e ?bs) (completion_order e) ?s0)"
    by (simp add: embed_and_upsert_def Let_def texts)
  show "embed_and_upsert e df w =
     (\<lparr>pworld = w\<lparr>embed_log := embed_log w @
                      [map post_text (take 100 df), map post_text (take 100 (drop 100 df)),
                       map post_text (drop 200 df)],
                  upsert_log := upsert_log w @ calls,
                  checkpoint_file := checkpoint_after calls (checkpoint_file w)\<rparr>,
       vectors_to_upsert_buffer = [],
       processed_count_in_run = count_after calls\<rparr>, None)"
    unfolding w1 main fin by (simp add: delivered_def calls)
qed



lemma scripted_provider_ok: "provider_ok (scripted_env outcomes order) all_batches i"
  by (simp add: provider_ok_def scripted_env_def)

lemma set_three_batches:
  assumes "set order = {0, 1, 2::nat}"
  shows "set (concat (map ((!) [take 100 df, take 100 (drop 100 df), drop 200 df]) order)) = set df"
proof -
  have "set df = set (take 100 df @ take 100 (drop 100 df) @ drop 200 df)"
    by (metis append_take_drop_id drop_drop numeral_Bit0)
  also have "\<dots> = (\<Union>i\<in>{0, 1, 2}. set ([take 100 df, take 100 (drop 100 df), drop 200 df] ! i))"
    by auto
  finally show ?thesis by (simp add: assms)
qed

lemma appended_appended:
  "appended ys (appended xs file) = appended (xs @ ys) file"
  by (simp add: appended_def)

text \<open>
  Claim C8. A filtered frame of 250 rows is cut into the three batches of rows 0 to 99, 100
  to 199 and 200 to 249, and the provider is called once for each. Let the three futures
  complete in any order, each with one vector for each text, let the first three upsert
  calls return and the writes to the checkpoint file succeed. Then the 250 vectors, taken
  in the order of completion, are upserted in exactly three calls of 100, 100 and 50
  vectors, the last from the buffer left after the loop; the checkpoint file ends as the
  old one followed by one line for each of the 250 vectors, holding its id, and these ids
  are those of the 250 rows; the buffer ends empty and the count is 250.
\<close>

theorem scenario_all_succeed:
  assumes "length df = 250"
    and "distinct (completion_order e)" and "set (completion_order e) = {0, 1, 2}"
    and "\<forall>i<3. provider_ok e (prepare_batches 0 df) i"
    and "writes_succeed e"
    and "\<forall>k<3. sink_outcome e (length (upsert_log w) + k) = None"
    and "vs = concat (map (batch_vecs e (prepare_batches 0 df)) (completion_order e))"
  shows "prepare_batches 0 df = [take 100 df, take 100 (drop 100 df), drop 200 df] \<and>
     map length (prepare_batches 0 df) = [100, 100, 50] \<and>
     concat (prepare_batches 0 df) = df \<and>
     length vs = 250 \<and>
     map vid vs = map post_id (concat (map ((!) (prepare_batches 0 df)) (completion_order e))) \<and>
     set (map vid vs) = post_id ` set df \<and>
     map length [take 100 vs, take 100 (drop 100 vs), drop 200 vs] = [100, 100, 50] \<and>
     embed_and_upsert e df w =
       (\<lparr>pworld = w\<lparr>embed_log := embed_log w @ map (map post_text) (prepare_batches 0 df),
                    upsert_log := upsert_log w @
                      [(take 100 vs, None), (take 100 (drop 100 vs), None), (drop 200 vs, None)],
                    checkpoint_file :=
                      Some ((case checkpoint_file w of None \<Rightarrow> [] | Some content \<Rightarrow> content) @
                            concat (map (\<lambda>v. vid v @ [CHR 0x0A]) vs))\<rparr>,
         vectors_to_upsert_buffer = [],
         processed_count_in_run = 250\<rparr>, None)"
proof -
  let ?calls = "[(take 100 vs, sink_outcome e (length (upsert_log w))),
                 (take 100 (drop 100 vs), sink_outcome e (length (upsert_log w) + 1)),
                 (drop 200 vs, sink_outcome e (length (upsert_log w) + 2))]"
  have o: "sink_outcome e (length (upsert_log w)) = None" "sink_outcome e (length (upsert_log w) + 1) = None"
    "sink_outcome e (length (upsert_log w) + 2) = None"
    using assms(6) [rule_format, of 0] assms(6) [rule_format, of 1] assms(6) [rule_format, of 2] by simp_all
  have sink: "\<forall>k<3. one_call_outcome (sink_outcome e (length (upsert_log w) + k))"
    using assms(6) by (simp add: one_call_outcome_def)
  note sc = scenario_250 [OF assms(1-5) sink assms(7) refl]
  have bs: "prepare_batches 0 df = [take 100 df, take 100 (drop 100 df), drop 200 df]"
    using assms(1) by (rule prepare_batches_250)
  have parts: "take 100 df @ take 100 (drop 100 df) @ drop 200 df = df"
    by (metis append_take_drop_id drop_drop numeral_Bit0)
  have vparts: "take 100 vs @ take 100 (drop 100 vs) @ drop 200 vs = vs"
    by (metis append_take_drop_id drop_drop numeral_Bit0)
  have ids: "map vid (take 100 vs) @ map vid (take 100 (drop 100 vs)) @ map vid (drop 200 vs) = map vid vs"
    by (simp only: map_append [symmetric] vparts)
  have ckpt: "appended (map vid (drop 200 vs))
        (appended (map vid (take 100 (drop 100 vs)))
          (appended (map vid (take 100 vs)) (checkpoint_file w))) =
      Some ((case checkpoint_file w of None \<Rightarrow> [] | Some content \<Rightarrow> content) @
            concat (map (\<lambda>v. vid v @ [CHR 0x0A]) vs))"
    unfolding appended_appended append_assoc ids
    by (simp add: appended_def o_def)
  have "set (map vid vs) = post_id ` set (concat (map ((!) (prepare_batches 0 df)) (completion_order e)))"
    by (simp only: sc(3) set_map)
  also have "\<dots> = post_id ` set df"
    unfolding bs using assms(3) by (simp only: set_three_batches)
  finally have sids: "set (map vid vs) = post_id ` set df" .
  show ?thesis
    apply (intro conjI)
           apply (rule bs)
          apply (simp add: bs assms(1))
         apply (simp add: bs parts)
        apply (rule sc(2))
       apply (rule sc(3))
      apply (rule sids)
     apply (simp add: sc(2))
    using o apply (simp add: sc(1) ckpt sc(2) bs)
    done
qed

lemma demo_rows_parts:
  "drop 200 demo_rows = map (\<lambda>i. \<lparr>post_id = str_nat i, post_text = PStr ''some text'', others = []\<rparr>) [200..<250]"
  "take 100 demo_rows = map (\<lambda>i. \<lparr>post_id = str_nat i, post_text = PStr ''some text'', others = []\<rparr>) [0..<100]"
  "take 100 (drop 100 demo_rows) =
     map (\<lambda>i. \<lparr>post_id = str_nat i, post_text = PStr ''some text'', others = []\<rparr>) [100..<200]"
proof -
  have a: "drop 200 [0..<250] = [200..<250]"
    by (simp only: drop_upt) simp
  have b: "take 100 [0..<250] = [0..<100]"
    by (subst take_upt) simp_all
  have c: "take 100 (drop 100 [0..<250]) = [100..<200]"
    by (simp only: drop_upt) (subst take_upt, simp_all)
  show "drop 200 demo_rows = map (\<lambda>i. \<lparr>post_id = str_nat i, post_text = PStr ''some text'', others = []\<rparr>) [200..<250]"
    unfolding demo_rows_def drop_map a ..
  show "take 100 demo_rows = map (\<lambda>i. \<lparr>post_id = str_nat i, post_text = PStr ''some text'', others = []\<rparr>) [0..<100]"
    unfolding demo_rows_def take_map b ..
  show "take 100 (drop 100 demo_rows) =
     map (\<lambda>i. \<lparr>post_id = str_nat i, post_text = PStr ''some text'', others = []\<rparr>) [100..<200]"
    unfolding demo_rows_def take_map drop_map c ..
qed

text \<open>
  A run of the theorem: 250 rows with the ids 0 to 249, the third future completing first.
  The checkpoint file ends with the ids 200 to 249, then 0 to 99, then 100 to 199, one on
  each line.
\<close>

theorem scenario_all_succeed_witness:
  "length demo_rows = 250 \<and>
   map length (prepare_batches 0 demo_rows) = [100, 100, 50] \<and>
   map (length \<circ> fst) (upsert_log (pworld (fst (embed_and_upsert out_of_order_env demo_rows fresh_world)))) =
     [100, 100, 50] \<and>
   map snd (upsert_log (pworld (fst (embed_and_upsert out_of_order_env demo_rows fresh_world)))) =
     [None, None, None] \<and>
   length (embed_log (pworld (fst (embed_and_upsert out_of_order_env demo_rows fresh_world)))) = 3 \<and>
   processed_count_in_run (fst (embed_and_upsert out_of_order_env demo_rows fresh_world)) = 250 \<and>
   checkpoint_file (pworld (fst (embed_and_upsert out_of_order_env demo_rows fresh_world))) =
     Some (concat (map (\<lambda>i. str_nat i @ [CHR 0x0A]) ([200..<250] @ [0..<100] @ [100..<200])))"
proof -
  have len: "length demo_rows = 250" by (simp add: demo_rows_def)
  have d: "distinct (completion_order out_of_order_env)"
    and s: "set (completion_order out_of_order_env) = {0, 1, 2}"
    by (auto simp: out_of_order_env_def scripted_env_def)
  have p: "\<forall>i<3. provider_ok out_of_order_env (prepare_batches 0 demo_rows) i"
    by (simp add: out_of_order_env_def scripted_provider_ok)
  have ws: "writes_succeed out_of_order_env"
    by (simp add: out_of_order_env_def writes_succeed_scripted)
  have k: "\<forall>k<3. sink_outcome out_of_order_env (length (upsert_log fresh_world) + k) = None"
    by (simp add: out_of_order_env_def scripted_env_def)
  define vs where "vs = concat (map (batch_vecs out_of_order_env (prepare_batches 0 demo_rows))
      (completion_order out_of_order_env))"
  note t = scenario_all_succeed [OF len d s p ws k vs_def]
  have l: "length vs = 250"
    using t by blast
  have r: "embed_and_upsert out_of_order_env demo_rows fresh_world =
    (\<lparr>pworld = fresh_world\<lparr>embed_log := embed_log fresh_world @ map (map post_text) (prepare_batches 0 demo_rows),
                    upsert_log := upsert_log fresh_world @
                      [(take 100 vs, None), (take 100 (drop 100 vs), None), (drop 200 vs, None)],
                    checkpoint_file :=
                      Some ((case checkpoint_file fresh_world of None \<Rightarrow> [] | Some content \<Rightarrow> content) @
                            concat (map (\<lambda>v. vid v @ [CHR 0x0A]) vs))\<rparr>,
         vectors_to_upsert_buffer = [],
         processed_count_in_run = 250\<rparr>, None)"
    using t by blast
  have b: "map length (prepare_batches 0 demo_rows) = [100, 100, 50]"
    using t by blast
  have bs: "prepare_batches 0 demo_rows = [take 100 demo_rows, take 100 (drop 100 demo_rows), drop 200 demo_rows]"
    using t by blast
  have b3: "length (prepare_batches 0 demo_rows) = 3"
    using arg_cong [OF b, of length] by simp
  have ids: "map vid vs = map post_id (concat (map ((!) (prepare_batches 0 demo_rows)) (completion_order out_of_order_env)))"
    using t by blast
  have order: "completion_order out_of_order_env = [2, 0, 1]"
    by (simp add: out_of_order_env_def scripted_env_def)
  have ids': "map vid vs = map str_nat ([200..<250] @ [0..<100] @ [100..<200])"
    unfolding ids bs order demo_rows_parts
    by (simp add: o_def)
  have "concat (map (\<lambda>v. vid v @ [CHR 0x0A]) vs) = concat (map (\<lambda>i. i @ [CHR 0x0A]) (map vid vs))"
    by (simp add: o_def)
  also have "\<dots> = concat (map (\<lambda>i. str_nat i @ [CHR 0x0A]) ([200..<250] @ [0..<100] @ [100..<200]))"
    unfolding ids' by (simp only: map_map o_def)
  finally have lines: "concat (map (\<lambda>v. vid v @ [CHR 0x0A]) vs) =
      concat (map (\<lambda>i. str_nat i @ [CHR 0x0A]) ([200..<250] @ [0..<100] @ [100..<200]))" .
  have w0: "upsert_log fresh_world = []" "embed_log fresh_world = []" "checkpoint_file fresh_world = None"
    by (simp_all add: fresh_world_def)
  have sel: "checkpoint_file (x\<lparr>embed_log := el, upsert_log := ul, checkpoint_file := cf\<rparr>) = cf"
    for x :: "pyfloat list world" and el ul cf
    by simp
  show ?thesis
    unfolding r fst_conv pstate.simps world.simps w0 append_Nil option.case lines
    apply (intro conjI)
    subgoal by (rule len)
    subgoal by (rule b)
    subgoal by (simp add: l)
    subgoal by simp
    subgoal by (simp add: b3)
    subgoal by simp
    subgoal by (rule sel)
    done
qed



text \<open>
  Claim C5. When an upsert call raises an error that is not retryable, at whatever attempt,
  the loop of \<^verbatim>\<open>upsert_with_retry\<close> returns 0 at once: the world differs only by the
  logged call, so there is no further attempt, no sleep and no id appended. The caller goes
  on: the block that flushes the full buffer ends without an exception, with the buffer
  emptied. In the run over 250 rows in which only the first upsert call raises such an
  error (the writes to the checkpoint file succeeding), the second and the third batch are
  still upserted and checkpointed, the ids of the first batch are not, and the count is
  150.
\<close>

theorem non_retryable_error_abandons_batch:
  "(int retries < max_retries \<and> sink_outcome e (length (upsert_log w)) = Some msg \<and> \<not> is_retryable msg
      \<longrightarrow> retry_loop e vectors_batch max_retries initial_delay retries w =
            (w\<lparr>upsert_log := upsert_log w @ [(vectors_batch, Some msg)]\<rparr>, Inr 0))
   \<and> (vectors_batch \<noteq> [] \<and> 0 < max_retries \<and>
      sink_outcome e (length (upsert_log w)) = Some msg \<and> \<not> is_retryable msg
      \<longrightarrow> upsert_with_retry e vectors_batch max_retries initial_delay w =
            (w\<lparr>upsert_log := upsert_log w @ [(vectors_batch, Some msg)]\<rparr>, Inr 0))
   \<and> (length (vectors_to_upsert_buffer s) = PINECONE_UPSERT_BATCH_SIZE \<and>
      sink_outcome e (length (upsert_log (pworld s))) = Some msg \<and> \<not> is_retryable msg
      \<longrightarrow> flush_if_full e s =
            (s\<lparr>pworld := (pworld s)\<lparr>upsert_log := upsert_log (pworld s) @
                     [(vectors_to_upsert_buffer s, Some msg)]\<rparr>,
               vectors_to_upsert_buffer := []\<rparr>, None))
   \<and> (length df = 250 \<and> distinct (completion_order e) \<and> set (completion_order e) = {0, 1, 2} \<and>
      (\<forall>i<3. provider_ok e (prepare_batches 0 df) i) \<and> writes_succeed e \<and>
      sink_outcome e (length (upsert_log w)) = Some msg \<and> \<not> is_retryable msg \<and>
      sink_outcome e (length (upsert_log w) + 1) = None \<and>
      sink_outcome e (length (upsert_log w) + 2) = None \<and>
      vs = concat (map (batch_vecs e (prepare_batches 0 df)) (completion_order e))
      \<longrightarrow> embed_and_upsert e df w =
            (\<lparr>pworld = w\<lparr>embed_log := embed_log w @ map (map post_text) (prepare_batches 0 df),
                         upsert_log := upsert_log w @
                           [(take 100 vs, Some msg), (take 100 (drop 100 vs), None),
                            (drop 200 vs, None)],
                         checkpoint_file :=
                           Some ((case checkpoint_file w of None \<Rightarrow> [] | Some content \<Rightarrow> content) @
                                 concat (map (\<lambda>v. vid v @ [CHR 0x0A]) (drop 100 vs)))\<rparr>,
              vectors_to_upsert_buffer = [],
              processed_count_in_run = 150\<rparr>, None))"
proof (intro conjI impI)
  assume "int retries < max_retries \<and> sink_outcome e (length (upsert_log w)) = Some msg \<and> \<not> is_retryable msg"
  then show "retry_loop e vectors_batch max_retries initial_delay retries w =
            (w\<lparr>upsert_log := upsert_log w @ [(vectors_batch, Some msg)]\<rparr>, Inr 0)"
    by (simp add: retry_loop_non_retryable)
next
  assume "vectors_batch \<noteq> [] \<and> 0 < max_retries \<and>
      sink_outcome e (length (upsert_log w)) = Some msg \<and> \<not> is_retryable msg"
  then show "upsert_with_retry e vectors_batch max_retries initial_delay w =
            (w\<lparr>upsert_log := upsert_log w @ [(vectors_batch, Some msg)]\<rparr>, Inr 0)"
    by (simp add: upsert_with_retry_def retry_loop_non_retryable)
next
  assume h: "length (vectors_to_upsert_buffer s) = PINECONE_UPSERT_BATCH_SIZE \<and>
      sink_outcome e (length (upsert_log (pworld s))) = Some msg \<and> \<not> is_retryable msg"
  then have ne: "vectors_to_upsert_buffer s \<noteq> []"
    by (auto simp: PINECONE_UPSERT_BATCH_SIZE_def)
  have "upsert_with_retry e (vectors_to_upsert_buffer s) 3 5 (pworld s) =
      ((pworld s)\<lparr>upsert_log := upsert_log (pworld s) @ [(vectors_to_upsert_buffer s, Some msg)]\<rparr>, Inr 0)"
    using h ne by (simp add: upsert_with_retry_def retry_loop_non_retryable)
  with h ne show "flush_if_full e s =
            (s\<lparr>pworld := (pworld s)\<lparr>upsert_log := upsert_log (pworld s) @
                     [(vectors_to_upsert_buffer s, Some msg)]\<rparr>,
               vectors_to_upsert_buffer := []\<rparr>, None)"
    by (simp add: flush_if_full_def)
next
  assume h: "length df = 250 \<and> distinct (completion_order e) \<and> set (completion_order e) = {0, 1, 2} \<and>
      (\<forall>i<3. provider_ok e (prepare_batches 0 df) i) \<and> writes_succeed e \<and>
      sink_outcome e (length (upsert_log w)) = Some msg \<and> \<not> is_retryable msg \<and>
      sink_outcome e (length (upsert_log w) + 1) = None \<and>
      sink_outcome e (length (upsert_log w) + 2) = None \<and>
      vs = concat (map (batch_vecs e (prepare_batches 0 df)) (completion_order e))"
  have sink: "\<forall>k<3. one_call_outcome (sink_outcome e (length (upsert_log w) + k))"
  proof (intro allI impI)
    fix k :: nat assume "k < 3"
    then have "k = 0 \<or> k = 1 \<or> k = 2" by auto
    with h show "one_call_outcome (sink_outcome e (length (upsert_log w) + k))"
      by (auto simp: one_call_outcome_def)
  qed
  from h have len: "length df = 250" and d: "distinct (completion_order e)"
    and st: "set (completion_order e) = {0, 1, 2}"
    and p: "\<forall>i<3. provider_ok e (prepare_batches 0 df) i" and m: "writes_succeed e"
    and vs: "vs = concat (map (batch_vecs e (prepare_batches 0 df)) (completion_order e))"
    by simp_all
  note sc = scenario_250 [OF len d st p m sink vs refl]
  have bs: "prepare_batches 0 df = [take 100 df, take 100 (drop 100 df), drop 200 df]"
    using len by (rule prepare_batches_250)
  have parts: "take 100 (drop 100 vs) @ drop 200 vs = drop 100 vs"
    by (metis append_take_drop_id drop_drop numeral_Bit0)
  have ids: "map vid (take 100 (drop 100 vs)) @ map vid (drop 200 vs) = map vid (drop 100 vs)"
    by (simp only: map_append [symmetric] parts)
  have ckpt: "appended (map vid (drop 200 vs))
        (appended (map vid (take 100 (drop 100 vs))) (checkpoint_file w)) =
      Some ((case checkpoint_file w of None \<Rightarrow> [] | Some content \<Rightarrow> content) @
            concat (map (\<lambda>v. vid v @ [CHR 0x0A]) (drop 100 vs)))"
    unfolding appended_appended ids
    by (simp add: appended_def o_def)
  from h have o: "sink_outcome e (length (upsert_log w)) = Some msg"
    "sink_outcome e (length (upsert_log w) + 1) = None" "sink_outcome e (length (upsert_log w) + 2) = None"
    by simp_all
  from o show "embed_and_upsert e df w =
            (\<lparr>pworld = w\<lparr>embed_log := embed_log w @ map (map post_text) (prepare_batches 0 df),
                         upsert_log := upsert_log w @
                           [(take 100 vs, Some msg), (take 100 (drop 100 vs), None),
                            (drop 200 vs, None)],
                         checkpoint_file :=
                           Some ((case checkpoint_file w of None \<Rightarrow> [] | Some content \<Rightarrow> content) @
                                 concat (map (\<lambda>v. vid v @ [CHR 0x0A]) (drop 100 vs)))\<rparr>,
              vectors_to_upsert_buffer = [],
              processed_count_in_run = 150\<rparr>, None)"
    by (simp add: sc(1) ckpt sc(2) bs)
qed

lemma auth_error_not_retryable: "\<not> is_retryable ''Unauthorized: invalid API key''"
  by code_simp

lemma length_full_buffer: "length full_buffer = 100"
  by (simp add: full_buffer_def)

text \<open>
  Runs of the theorem: an authentication error at the first upsert call, of a batch of two
  vectors, of a full buffer, and of the run over 250 rows.
\<close>

theorem non_retryable_error_abandons_batch_witness:
  "retry_loop auth_error_env demo_batch 3 5 0 fresh_world =
     (fresh_world\<lparr>upsert_log := [(demo_batch, Some ''Unauthorized: invalid API key'')]\<rparr>, Inr 0)
   \<and> upsert_with_retry auth_error_env demo_batch 3 5 fresh_world =
     (fresh_world\<lparr>upsert_log := [(demo_batch, Some ''Unauthorized: invalid API key'')]\<rparr>, Inr 0)
   \<and> flush_if_full auth_error_env full_state =
     (full_state\<lparr>pworld := fresh_world\<lparr>upsert_log := [(full_buffer, Some ''Unauthorized: invalid API key'')]\<rparr>,
                 vectors_to_upsert_buffer := []\<rparr>, None)
   \<and> map snd (upsert_log (pworld (fst (embed_and_upsert auth_error_env demo_rows fresh_world)))) =
       [Some ''Unauthorized: invalid API key'', None, None]
   \<and> map (length \<circ> fst) (upsert_log (pworld (fst (embed_and_upsert auth_error_env demo_rows fresh_world)))) =
       [100, 100, 50]
   \<and> processed_count_in_run (fst (embed_and_upsert auth_error_env demo_rows fresh_world)) = 150
   \<and> snd (embed_and_upsert auth_error_env demo_rows fresh_world) = None"
proof -
  let ?msg = "''Unauthorized: invalid API key''"
  have w0: "upsert_log fresh_world = []" "embed_log fresh_world = []" "checkpoint_file fresh_world = None"
    by (simp_all add: fresh_world_def)
  have o0: "sink_outcome auth_error_env (length (upsert_log fresh_world)) = Some ?msg"
    and o1: "sink_outcome auth_error_env (length (upsert_log fresh_world) + 1) = None"
    and o2: "sink_outcome auth_error_env (length (upsert_log fresh_world) + 2) = None"
    by (simp_all add: auth_error_env_def scripted_env_def w0)
  have ne: "demo_batch \<noteq> []" by (simp add: demo_batch_def)
  have fs: "length (vectors_to_upsert_buffer full_state) = PINECONE_UPSERT_BATCH_SIZE"
    "pworld full_state = fresh_world" "vectors_to_upsert_buffer full_state = full_buffer"
    by (simp_all add: full_state_def length_full_buffer PINECONE_UPSERT_BATCH_SIZE_def)
  have len: "length demo_rows = 250" by (simp add: demo_rows_def)
  have d: "distinct (completion_order auth_error_env)"
    and st: "set (completion_order auth_error_env) = {0, 1, 2}"
    by (auto simp: auth_error_env_def scripted_env_def)
  have p: "\<forall>i<3. provider_ok auth_error_env (prepare_batches 0 demo_rows) i"
    by (simp add: auth_error_env_def scripted_provider_ok)
  have ws: "writes_succeed auth_error_env"
    by (simp add: auth_error_env_def writes_succeed_scripted)
  define vs where "vs = concat (map (batch_vecs auth_error_env (prepare_batches 0 demo_rows))
      (completion_order auth_error_env))"
  note t = non_retryable_error_abandons_batch [where e = auth_error_env and msg = ?msg and w = fresh_world
      and retries = 0 and max_retries = 3 and vectors_batch = demo_batch and initial_delay = 5
      and s = full_state and df = demo_rows and vs = vs]
  have a: "retry_loop auth_error_env demo_batch 3 5 0 fresh_world =
     (fresh_world\<lparr>upsert_log := upsert_log fresh_world @ [(demo_batch, Some ?msg)]\<rparr>, Inr 0)"
    using t [THEN conjunct1] o0 auth_error_not_retryable by simp
  have b: "upsert_with_retry auth_error_env demo_batch 3 5 fresh_world =
     (fresh_world\<lparr>upsert_log := upsert_log fresh_world @ [(demo_batch, Some ?msg)]\<rparr>, Inr 0)"
    using t [THEN conjunct2, THEN conjunct1] o0 auth_error_not_retryable ne by simp
  have c: "flush_if_full auth_error_env full_state =
     (full_state\<lparr>pworld := (pworld full_state)\<lparr>upsert_log := upsert_log (pworld full_state) @
                     [(vectors_to_upsert_buffer full_state, Some ?msg)]\<rparr>,
               vectors_to_upsert_buffer := []\<rparr>, None)"
    using t [THEN conjunct2, THEN conjunct2, THEN conjunct1] o0 auth_error_not_retryable fs by simp
  have l: "length vs = 250"
    using scenario_250(2) [OF len d st p ws _ vs_def refl, of fresh_world] o0 o1 o2
      auth_error_not_retryable
    by (simp add: one_call_outcome_def less_Suc_eq numeral_3_eq_3)
  have r: "embed_and_upsert auth_error_env demo_rows fresh_world =
            (\<lparr>pworld = fresh_world\<lparr>embed_log := embed_log fresh_world @ map (map post_text) (prepare_batches 0 demo_rows),
                         upsert_log := upsert_log fresh_world @
                           [(take 100 vs, Some ?msg), (take 100 (drop 100 vs), None),
                            (drop 200 vs, None)],
                         checkpoint_file :=
                           Some ((case checkpoint_file fresh_world of None \<Rightarrow> [] | Some content \<Rightarrow> content) @
                                 concat (map (\<lambda>v. vid v @ [CHR 0x0A]) (drop 100 vs)))\<rparr>,
              vectors_to_upsert_buffer = [],
              processed_count_in_run = 150\<rparr>, None)"
    using t [THEN conjunct2, THEN conjunct2, THEN conjunct2] len d st p ws o0 o1 o2
      auth_error_not_retryable vs_def by blast
  show ?thesis
    unfolding r
    apply (intro conjI)
    subgoal using a by (simp add: w0)
    subgoal using b by (simp add: w0)
    subgoal using c by (simp add: w0 fs)
    subgoal by (simp add: w0)
    subgoal by (simp add: w0 l)
    subgoal by simp
    subgoal by simp
    done
qed





subsection \<open>Resuming from the checkpoint file\<close>

lemma resume_filter: "resume processed_ids_set df = filter (\<lambda>r. post_id r \<notin> processed_ids_set) df"
  by (simp add: resume_def)

lemma resume_excludes_loaded:
  "set (resume processed_ids_set df) = {r \<in> set df. post_id r \<notin> processed_ids_set}"
  by (auto simp: resume_filter)

text \<open>
  Claim C2 says that a record whose id was appended in a prior run is never processed
  again. The ids are written to the checkpoint file as they are (line 45) and read back
  stripped of the whitespace at their ends (line 38), and the filter compares the ids of
  the frame, unstripped, with the set read back. A sheet of two rows with the ids
  \<^verbatim>\<open>' 7'\<close> and \<^verbatim>\<open>'post_8'\<close> is run twice. The first run embeds, upserts and checkpoints both
  rows. The second run reads the ids \<^verbatim>\<open>'7'\<close> and \<^verbatim>\<open>'post_8'\<close> back, skips the second row
  and processes the first once more: it is embedded, upserted and appended to the
  checkpoint file a second time.
\<close>

theorem padded_id_is_processed_again:
  "run one_batch_env padded_sheet fresh_world =
     (\<lparr>pworld = after_padded_run, vectors_to_upsert_buffer = [], processed_count_in_run = 2\<rparr>, None) \<and>
   load_processed_ids (checkpoint_file after_padded_run) = {''7'', ''post_8''} \<and>
   resume (load_processed_ids (checkpoint_file after_padded_run)) (load_data padded_sheet) =
     [\<lparr>post_id = '' 7'', post_text = PStr ''hello'', others = []\<rparr>] \<and>
   run one_batch_env padded_sheet after_padded_run =
     (\<lparr>pworld = \<lparr>checkpoint_file =
                   Some ('' 7'' @ [CHR 0x0A] @ ''post_8'' @ [CHR 0x0A] @ '' 7'' @ [CHR 0x0A]),
                 upsert_log = [([padded_vec, post_8_vec], None), ([padded_vec], None)],
                 sleep_log = [],
                 embed_log = [[PStr ''hello'', PStr ''world''], [PStr ''hello'']]\<rparr>,
       vectors_to_upsert_buffer = [], processed_count_in_run = 1\<rparr>, None)"
  by code_simp


end
